theory Spec2Isabelle
  imports Main "HOL-Library.Word"
begin

unbundle bit_operations_syntax

chapter \<open>BuzzDB: a shallow embedding of the storage, buffer and insert paths\<close>

text \<open>
  The definitions below follow the C++ headers under \<^verbatim>\<open>src/\<close>: \<^verbatim>\<open>common/\<close>,
  \<^verbatim>\<open>buffer/two_q_policy.h\<close>, \<^verbatim>\<open>storage/field.h\<close>, \<^verbatim>\<open>storage/tuple.h\<close>,
  \<^verbatim>\<open>storage/slot.h\<close>, \<^verbatim>\<open>storage/slotted_page.h\<close>, \<^verbatim>\<open>storage/storage_manager.h\<close>,
  \<^verbatim>\<open>buffer/buffer_frame.h\<close>, \<^verbatim>\<open>buffer/buffer_manager.h\<close> and
  \<^verbatim>\<open>execution/insert_operator.h\<close>. Mutation is explicit state passing, exceptions and
  failed assertions are values of a sum type, and loops are recursive functions.
\<close>

section \<open>Common constants and types (common/config.h, common/types.h)\<close>

type_synonym byte = "8 word"
type_synonym PageID = "16 word"
type_synonym SlotID = "16 word"
type_synonym FrameID = nat

definition PAGE_SIZE :: nat where
  "PAGE_SIZE = 4096"

definition MAX_SLOTS :: nat where
  "MAX_SLOTS = 512"

text \<open>\<^verbatim>\<open>std::numeric_limits<uint16_t>::max()\<close>.\<close>

definition INVALID_VALUE :: "16 word" where
  "INVALID_VALUE = 65535"

datatype FieldType = INT_T | FLOAT_T | STRING_T

text \<open>
  The enumerators \<^verbatim>\<open>INT\<close>, \<^verbatim>\<open>FLOAT\<close>, \<^verbatim>\<open>STRING\<close> of \<^verbatim>\<open>enum class FieldType\<close> carry the
  suffix \<open>_T\<close> here. \<^verbatim>\<open>static_cast<int>(type)\<close> numbers them in declaration order.
\<close>

fun FieldType_ordinal :: "FieldType \<Rightarrow> int" where
  "FieldType_ordinal INT_T = 0"
| "FieldType_ordinal FLOAT_T = 1"
| "FieldType_ordinal STRING_T = 2"

text \<open>
  Everything the modelled code can throw or abort with. \<^verbatim>\<open>buffer_full_error\<close> is
  \<open>BufferFull\<close>; \<^verbatim>\<open>std::out_of_range\<close> of \<^verbatim>\<open>StorageManager::load\<close> is \<open>OutOfRange\<close>; its
  \<^verbatim>\<open>std::runtime_error\<close> on a short read is \<open>ReadFailed\<close>; the \<^verbatim>\<open>std::runtime_error\<close> of
  \<^verbatim>\<open>BufferManager::unfix_page\<close> is \<open>UnfixUnfixed\<close>; a failed \<^verbatim>\<open>assert\<close> is
  \<open>AssertionFailed\<close>; dereferencing a null \<^verbatim>\<open>unique_ptr\<close> or indexing a vector out of
  range is \<open>InvalidAccess\<close>.
\<close>

datatype error = BufferFull | OutOfRange | ReadFailed | UnfixUnfixed | AssertionFailed | InvalidAccess

section \<open>The 2Q replacement policy (buffer/two_q_policy.h)\<close>

type_synonym PageState = int

definition PAGE_UNFIXED :: PageState where
  "PAGE_UNFIXED = 0"

definition PAGE_EXCLUSIVE :: PageState where
  "PAGE_EXCLUSIVE = - 1"

text \<open>
  The two \<^verbatim>\<open>std::list<PageID>\<close> queues, front first. The members \<^verbatim>\<open>fifo_map_\<close> and
  \<^verbatim>\<open>lru_map_\<close> index the nodes of the two lists by page id; every method updates a list
  and its index together, so a key is in an index exactly when the page is in that
  list, and the stored iterator designates the node holding that page. The model keeps
  the lists, tests membership on them, and erases the node that holds the page.
\<close>

record TwoQPolicy =
  fifo_queue :: "PageID list"
  lru_queue :: "PageID list"

definition TwoQPolicy_new :: TwoQPolicy where
  "TwoQPolicy_new = \<lparr>fifo_queue = [], lru_queue = []\<rparr>"

text \<open>Unlinking the node that holds \<open>p\<close> (\<^verbatim>\<open>splice\<close> out of a list, or \<^verbatim>\<open>erase\<close>).\<close>

fun unlink :: "PageID \<Rightarrow> PageID list \<Rightarrow> PageID list" where
  "unlink p [] = []"
| "unlink p (x # xs) = (if x = p then xs else x # unlink p xs)"

text \<open>\<^verbatim>\<open>bool touch(PageID page_id)\<close>: the returned flag and the new policy state.\<close>

definition touch :: "PageID \<Rightarrow> TwoQPolicy \<Rightarrow> bool \<times> TwoQPolicy" where
  "touch page_id s =
     (if page_id \<in> set (fifo_queue s) then
        (True, s\<lparr>fifo_queue := unlink page_id (fifo_queue s),
                  lru_queue := lru_queue s @ [page_id]\<rparr>)
      else if page_id \<in> set (lru_queue s) then
        (True, s\<lparr>lru_queue := unlink page_id (lru_queue s) @ [page_id]\<rparr>)
      else
        (False, s\<lparr>fifo_queue := fifo_queue s @ [page_id]\<rparr>))"

text \<open>A sequence of \<^verbatim>\<open>touch\<close> calls, keeping only the state.\<close>

definition touch_all :: "PageID list \<Rightarrow> TwoQPolicy \<Rightarrow> TwoQPolicy" where
  "touch_all ps s = foldl (\<lambda>s p. snd (touch p s)) s ps"

text \<open>
  One of the two loops of \<^verbatim>\<open>evict(state_of_page)\<close>: walk a queue from the front, stop at
  the first page that the state map holds with state \<^verbatim>\<open>PAGE_UNFIXED\<close>, erase that node
  and return the page together with the queue that remains.
\<close>

fun scan_queue :: "(PageID \<rightharpoonup> PageState) \<Rightarrow> PageID list \<Rightarrow> (PageID \<times> PageID list) option" where
  "scan_queue state_of_page [] = None"
| "scan_queue state_of_page (x # xs) =
     (if state_of_page x = Some PAGE_UNFIXED then Some (x, xs)
      else (case scan_queue state_of_page xs of
              None \<Rightarrow> None
            | Some (victim, rest) \<Rightarrow> Some (victim, x # rest)))"

text \<open>\<^verbatim>\<open>PageID evict(const std::unordered_map<PageID, PageState>&)\<close>.\<close>

definition evict :: "(PageID \<rightharpoonup> PageState) \<Rightarrow> TwoQPolicy \<Rightarrow> error + (PageID \<times> TwoQPolicy)" where
  "evict state_of_page s =
     (case scan_queue state_of_page (fifo_queue s) of
        Some (victim, rest) \<Rightarrow> Inr (victim, s\<lparr>fifo_queue := rest\<rparr>)
      | None \<Rightarrow>
          (case scan_queue state_of_page (lru_queue s) of
             Some (victim, rest) \<Rightarrow> Inr (victim, s\<lparr>lru_queue := rest\<rparr>)
           | None \<Rightarrow> Inl BufferFull))"

text \<open>The pages a policy tracks, and the states the claim speaks of.\<close>

definition tracked :: "TwoQPolicy \<Rightarrow> PageID set" where
  "tracked s = set (fifo_queue s) \<union> set (lru_queue s)"

definition is_unfixed :: "(PageID \<rightharpoonup> PageState) \<Rightarrow> PageID \<Rightarrow> bool" where
  "is_unfixed state_of_page p \<longleftrightarrow> state_of_page p = Some PAGE_UNFIXED"

section \<open>Fields (storage/field.h)\<close>

text \<open>
  \<^verbatim>\<open>class Field\<close> is a hand-written tagged union: \<^verbatim>\<open>type\<close>, \<^verbatim>\<open>data_length\<close> and a byte
  buffer \<^verbatim>\<open>data\<close> that holds an \<^verbatim>\<open>int\<close>, a \<^verbatim>\<open>float\<close> or the characters of a string and
  their terminating NUL. The three constructors are the three variants. An \<^verbatim>\<open>int\<close> is
  its 32-bit two's complement pattern, a \<^verbatim>\<open>float\<close> its IEEE-754 binary32 pattern, a
  string the characters given to the constructor.
\<close>

datatype Field = IntField "32 word" | FloatField "32 word" | StringField string

fun getType :: "Field \<Rightarrow> FieldType" where
  "getType (IntField i) = INT_T"
| "getType (FloatField f) = FLOAT_T"
| "getType (StringField s) = STRING_T"

text \<open>\<^verbatim>\<open>data_length\<close>: \<^verbatim>\<open>sizeof(int)\<close>, \<^verbatim>\<open>sizeof(float)\<close>, or \<^verbatim>\<open>s.size() + 1\<close>.\<close>

fun data_length :: "Field \<Rightarrow> nat" where
  "data_length (IntField i) = 4"
| "data_length (FloatField f) = 4"
| "data_length (StringField s) = length s + 1"

text \<open>
  Reading the buffer as a C string (\<^verbatim>\<open>std::string(data.get())\<close>, \<^verbatim>\<open>buffer << data.get()\<close>)
  stops at the first NUL.
\<close>

definition c_str :: "string \<Rightarrow> string" where
  "c_str s = takeWhile (\<lambda>c. c \<noteq> CHR 0x00) s"

subsection \<open>The order of binary32 values\<close>

text \<open>
  \<^verbatim>\<open>==\<close> and \<^verbatim>\<open><\<close> on \<^verbatim>\<open>float\<close> are the IEEE-754 comparisons: a NaN (all exponent bits
  set, non-zero fraction) is unordered and unequal to everything; otherwise values
  compare as sign and magnitude, with both zeros equal.
\<close>

definition float_is_nan :: "32 word \<Rightarrow> bool" where
  "float_is_nan w \<longleftrightarrow> (w AND 0x7F800000 = 0x7F800000) \<and> (w AND 0x007FFFFF \<noteq> 0)"

definition float_key :: "32 word \<Rightarrow> int" where
  "float_key w = (if bit w 31 then - uint (w AND 0x7FFFFFFF) else uint (w AND 0x7FFFFFFF))"

definition float_eq :: "32 word \<Rightarrow> 32 word \<Rightarrow> bool" where
  "float_eq a b \<longleftrightarrow> \<not> float_is_nan a \<and> \<not> float_is_nan b \<and> float_key a = float_key b"

definition float_less :: "32 word \<Rightarrow> 32 word \<Rightarrow> bool" where
  "float_less a b \<longleftrightarrow> \<not> float_is_nan a \<and> \<not> float_is_nan b \<and> float_key a < float_key b"

subsection \<open>The order of strings\<close>

text \<open>
  \<^verbatim>\<open>std::string::operator<\<close> compares with \<^verbatim>\<open>char_traits<char>::lt\<close>, that is, byte by
  byte as unsigned values, a proper prefix being smaller.
\<close>

fun string_less :: "string \<Rightarrow> string \<Rightarrow> bool" where
  "string_less [] [] = False"
| "string_less [] (y # ys) = True"
| "string_less (x # xs) [] = False"
| "string_less (x # xs) (y # ys) =
     ((of_char x :: nat) < of_char y \<or> (x = y \<and> string_less xs ys))"

subsection \<open>Accessors\<close>

text \<open>
  \<^verbatim>\<open>asInt\<close> and \<^verbatim>\<open>asFloat\<close> reinterpret the first four bytes of the buffer with no check of
  the tag. On a field of the other numeric type that is the other type's bit pattern;
  on a string field the source reads the characters (and beyond the buffer when the
  string is short), which has no defined result: \<open>None\<close>.
\<close>

fun asInt :: "Field \<Rightarrow> 32 word option" where
  "asInt (IntField i) = Some i"
| "asInt (FloatField f) = Some f"
| "asInt (StringField s) = None"

fun asFloat :: "Field \<Rightarrow> 32 word option" where
  "asFloat (IntField i) = Some i"
| "asFloat (FloatField f) = Some f"
| "asFloat (StringField s) = None"

subsection \<open>Comparison operators\<close>

text \<open>
  Each operator returns its result together with what it wrote to \<^verbatim>\<open>std::cerr\<close>. The
  operators other than \<^verbatim>\<open>==\<close> print a line and return false when the tags differ.
  \<^verbatim>\<open>==\<close> compares strings over \<^verbatim>\<open>data_length - 1\<close> bytes; the others compare
  \<^verbatim>\<open>asString()\<close>, the C string. The \<^verbatim>\<open>default\<close> branches of the switches are not
  reachable for the three enumerators.
\<close>

definition incompatible_msg :: string where
  "incompatible_msg = ''invalid comparison: incompatible type'' @ [CHR 0x0A]"

fun Field_eq :: "Field \<Rightarrow> Field \<Rightarrow> bool \<times> string" where
  "Field_eq (IntField a) (IntField b) = (a = b, [])"
| "Field_eq (FloatField a) (FloatField b) = (float_eq a b, [])"
| "Field_eq (StringField a) (StringField b) = (a = b, [])"
| "Field_eq lhs rhs = (False, [])"

fun Field_neq :: "Field \<Rightarrow> Field \<Rightarrow> bool \<times> string" where
  "Field_neq (FloatField a) (FloatField b) = (\<not> float_eq a b, [])"
| "Field_neq (IntField a) (IntField b) = (a \<noteq> b, [])"
| "Field_neq (StringField a) (StringField b) = (c_str a \<noteq> c_str b, [])"
| "Field_neq lhs rhs = (False, incompatible_msg)"

fun Field_less :: "Field \<Rightarrow> Field \<Rightarrow> bool \<times> string" where
  "Field_less (FloatField a) (FloatField b) = (float_less a b, [])"
| "Field_less (IntField a) (IntField b) = (a <s b, [])"
| "Field_less (StringField a) (StringField b) = (string_less (c_str a) (c_str b), [])"
| "Field_less lhs rhs = (False, incompatible_msg)"

fun Field_greater :: "Field \<Rightarrow> Field \<Rightarrow> bool \<times> string" where
  "Field_greater (FloatField a) (FloatField b) = (float_less b a, [])"
| "Field_greater (IntField a) (IntField b) = (b <s a, [])"
| "Field_greater (StringField a) (StringField b) = (string_less (c_str b) (c_str a), [])"
| "Field_greater lhs rhs = (False, incompatible_msg)"

fun Field_le :: "Field \<Rightarrow> Field \<Rightarrow> bool \<times> string" where
  "Field_le (FloatField a) (FloatField b) = (float_less a b \<or> float_eq a b, [])"
| "Field_le (IntField a) (IntField b) = (a \<le>s b, [])"
| "Field_le (StringField a) (StringField b) = (\<not> string_less (c_str b) (c_str a), [])"
| "Field_le lhs rhs = (False, incompatible_msg)"

fun Field_ge :: "Field \<Rightarrow> Field \<Rightarrow> bool \<times> string" where
  "Field_ge (FloatField a) (FloatField b) = (float_less b a \<or> float_eq a b, [])"
| "Field_ge (IntField a) (IntField b) = (b \<le>s a, [])"
| "Field_ge (StringField a) (StringField b) = (\<not> string_less (c_str a) (c_str b), [])"
| "Field_ge lhs rhs = (False, incompatible_msg)"

subsection \<open>Arithmetic\<close>

text \<open>
  \<^verbatim>\<open>operator+=(const int)\<close> adds in place when the tag is \<^verbatim>\<open>INT\<close> and otherwise does
  nothing; it returns \<^verbatim>\<open>*this\<close> in both cases and throws in neither. The sum of two
  \<^verbatim>\<open>int\<close>s is taken in 32-bit two's complement (an overflowing signed sum is left
  undefined by C++; the wrapped sum is what the hardware stores).
\<close>

fun Field_add_int :: "Field \<Rightarrow> 32 word \<Rightarrow> Field" where
  "Field_add_int (IntField v) val = IntField (v + val)"
| "Field_add_int f val = f"

text \<open>
  \<^verbatim>\<open>operator+=(const float)\<close>, with the binary32 addition of the platform as the
  parameter \<open>fadd\<close>.
\<close>

fun Field_add_float :: "(32 word \<Rightarrow> 32 word \<Rightarrow> 32 word) \<Rightarrow> Field \<Rightarrow> 32 word \<Rightarrow> Field" where
  "Field_add_float fadd (FloatField v) val = FloatField (fadd v val)"
| "Field_add_float fadd f val = f"

section \<open>Formatted stream input and output\<close>

text \<open>
  The serialisers write to a \<^verbatim>\<open>std::stringstream\<close> with \<^verbatim>\<open>operator<<\<close> and the
  deserialisers read from a \<^verbatim>\<open>std::istream\<close> with \<^verbatim>\<open>operator>>\<close>, both in the default
  state (classic locale, decimal base, \<^verbatim>\<open>skipws\<close> set). The characters of the classic
  locale's \<^verbatim>\<open>isspace\<close> are space, tab, line feed, vertical tab, form feed and carriage
  return.
\<close>

definition isspace :: "char \<Rightarrow> bool" where
  "isspace c \<longleftrightarrow> c = CHR '' '' \<or> c = CHR 0x09 \<or> c = CHR 0x0A \<or> c = CHR 0x0B \<or> c = CHR 0x0C \<or> c = CHR 0x0D"

definition isdigit :: "char \<Rightarrow> bool" where
  "isdigit c \<longleftrightarrow> 48 \<le> (of_char c :: nat) \<and> (of_char c :: nat) \<le> 57"

definition digit_char :: "nat \<Rightarrow> char" where
  "digit_char d = ''0123456789'' ! d"

definition digit_val :: "char \<Rightarrow> nat" where
  "digit_val c = of_char c - 48"

subsection \<open>Output\<close>

text \<open>\<^verbatim>\<open>operator<<\<close> for an unsigned integer: its decimal digits, most significant first.\<close>

fun show_nat :: "nat \<Rightarrow> string" where
  "show_nat n = (if n < 10 then [digit_char n] else show_nat (n div 10) @ [digit_char (n mod 10)])"

declare show_nat.simps [simp del]

text \<open>\<^verbatim>\<open>operator<<\<close> for a signed integer: a minus sign before the digits of a negative value.\<close>

definition show_int :: "int \<Rightarrow> string" where
  "show_int i = (if i < 0 then CHR ''-'' # show_nat (nat (- i)) else show_nat (nat i))"

subsection \<open>Input\<close>

text \<open>
  An input stream is the characters not yet read and its \<^verbatim>\<open>failbit\<close>. (A string stream
  that has reached its end has \<^verbatim>\<open>eofbit\<close> set exactly when no character is left for the
  next extraction, so \<^verbatim>\<open>eofbit\<close> is not a separate component.)
\<close>

record istream =
  buf :: string
  failbit :: bool

definition istream_of :: "string \<Rightarrow> istream" where
  "istream_of text = \<lparr>buf = text, failbit = False\<rparr>"

text \<open>
  The frame shared by every formatted extraction \<^verbatim>\<open>in >> x\<close>. The sentry fails, and
  \<^verbatim>\<open>x\<close> is left untouched (\<open>None\<close>), when the stream has failed before or when only
  white space is left; then \<^verbatim>\<open>failbit\<close> is set. Otherwise leading white space is skipped
  and \<open>parse\<close> reads the value from the first other character on: it returns the value
  stored into \<^verbatim>\<open>x\<close>, whether the conversion failed (\<^verbatim>\<open>failbit\<close>), and the characters that
  remain.
\<close>

definition stream_extract :: "(string \<Rightarrow> 'a \<times> bool \<times> string) \<Rightarrow> istream \<Rightarrow> 'a option \<times> istream" where
  "stream_extract parse s =
     (if failbit s then (None, s)
      else let b = dropWhile isspace (buf s) in
        if b = [] then (None, \<lparr>buf = [], failbit = True\<rparr>)
        else (case parse b of (v, bad, rest) \<Rightarrow> (Some v, \<lparr>buf = rest, failbit = bad\<rparr>)))"

text \<open>The value of a run of decimal digits.\<close>

definition digits_val :: "string \<Rightarrow> nat" where
  "digits_val ds = foldl (\<lambda>a c. 10 * a + digit_val c) 0 ds"

text \<open>An optional sign before a number.\<close>

definition split_sign :: "string \<Rightarrow> bool \<times> string" where
  "split_sign b =
     (case b of
        [] \<Rightarrow> (False, [])
      | c # cs \<Rightarrow> if c = CHR ''-'' then (True, cs) else if c = CHR ''+'' then (False, cs) else (False, b))"

text \<open>
  \<^verbatim>\<open>num_get\<close> for \<^verbatim>\<open>int\<close>: an optional sign and decimal digits. With no digit the
  conversion fails and stores 0; a value outside the range of \<^verbatim>\<open>int\<close> fails and stores
  the nearest bound.
\<close>

definition parse_int :: "string \<Rightarrow> 32 word \<times> bool \<times> string" where
  "parse_int b =
     (let (neg, b1) = split_sign b;
          ds = takeWhile isdigit b1;
          rest = dropWhile isdigit b1;
          v = (if neg then - int (digits_val ds) else int (digits_val ds))
      in if ds = [] then (0, True, rest)
         else if v > 2147483647 then (2147483647, True, rest)
         else if v < - 2147483648 then (- 2147483648, True, rest)
         else (word_of_int v, False, rest))"

text \<open>
  \<^verbatim>\<open>num_get\<close> for \<^verbatim>\<open>size_t\<close> (64 bits): as above; a magnitude beyond 64 bits fails and
  stores the largest value, and a minus sign negates the magnitude modulo \<open>2^64\<close>.
\<close>

definition parse_size :: "string \<Rightarrow> 64 word \<times> bool \<times> string" where
  "parse_size b =
     (let (neg, b1) = split_sign b;
          ds = takeWhile isdigit b1;
          rest = dropWhile isdigit b1;
          n = digits_val ds
      in if ds = [] then (0, True, rest)
         else if n \<ge> 18446744073709551616 then (- 1, True, rest)
         else (if neg then - of_nat n else of_nat n, False, rest))"

text \<open>\<^verbatim>\<open>operator>>\<close> for \<^verbatim>\<open>std::string\<close>: the characters up to the next white space.\<close>

definition parse_string :: "string \<Rightarrow> string \<times> bool \<times> string" where
  "parse_string b = (takeWhile (\<lambda>c. \<not> isspace c) b, False, dropWhile (\<lambda>c. \<not> isspace c) b)"

text \<open>
  What a function returns when its result may depend on a variable that no extraction
  has written: \<^verbatim>\<open>int type_int; in >> type_int;\<close> leaves \<^verbatim>\<open>type_int\<close> uninitialised when
  the sentry fails, and C++ gives a use of it no meaning.
\<close>

datatype 'a outcome = Indeterminate | Returns 'a

section \<open>Serialisation of fields and tuples (storage/field.h, storage/tuple.h)\<close>

text \<open>
  The text of a \<^verbatim>\<open>float\<close> written by \<^verbatim>\<open>operator<<\<close> and the conversion done by
  \<^verbatim>\<open>operator>>\<close> belong to the C++ library. They are the parameters \<open>fshow\<close> (bit pattern
  to text) and \<open>fread\<close> (a parser in the sense of \<open>stream_extract\<close>).
\<close>

type_synonym float_show = "32 word \<Rightarrow> string"
type_synonym float_read = "string \<Rightarrow> 32 word \<times> bool \<times> string"

text \<open>\<^verbatim>\<open>std::string Field::serialize()\<close>: type tag, \<^verbatim>\<open>data_length\<close>, value, each followed by a space.\<close>

fun Field_serialize :: "float_show \<Rightarrow> Field \<Rightarrow> string" where
  "Field_serialize fshow (StringField s) =
     show_int (FieldType_ordinal STRING_T) @ '' '' @ show_nat (length s + 1) @ '' '' @ c_str s @ '' ''"
| "Field_serialize fshow (IntField i) =
     show_int (FieldType_ordinal INT_T) @ '' '' @ show_nat 4 @ '' '' @ show_int (sint i) @ '' ''"
| "Field_serialize fshow (FloatField x) =
     show_int (FieldType_ordinal FLOAT_T) @ '' '' @ show_nat 4 @ '' '' @ fshow x @ '' ''"

text \<open>
  \<^verbatim>\<open>static std::unique_ptr<Field> Field::deserialize(std::istream&)\<close>. The result is the
  field (\<open>None\<close> is \<^verbatim>\<open>nullptr\<close>) and the stream after the call. \<^verbatim>\<open>length\<close> is read and
  dropped. A \<^verbatim>\<open>std::string val\<close> that the extraction leaves untouched is empty.
\<close>

definition Field_deserialize :: "float_read \<Rightarrow> istream \<Rightarrow> Field option outcome \<times> istream" where
  "Field_deserialize fread s =
     (let (type_int, s1) = stream_extract parse_int s;
          (len, s2) = stream_extract parse_size s1
      in case type_int of
           None \<Rightarrow> (Indeterminate, s2)
         | Some t \<Rightarrow>
             if sint t = FieldType_ordinal STRING_T then
               (case stream_extract parse_string s2 of
                  (None, s3) \<Rightarrow> (Returns (Some (StringField [])), s3)
                | (Some val, s3) \<Rightarrow> (Returns (Some (StringField val)), s3))
             else if sint t = FieldType_ordinal INT_T then
               (case stream_extract parse_int s2 of
                  (None, s3) \<Rightarrow> (Indeterminate, s3)
                | (Some val, s3) \<Rightarrow> (Returns (Some (IntField val)), s3))
             else if sint t = FieldType_ordinal FLOAT_T then
               (case stream_extract fread s2 of
                  (None, s3) \<Rightarrow> (Indeterminate, s3)
                | (Some val, s3) \<Rightarrow> (Returns (Some (FloatField val)), s3))
             else (Returns None, s2))"

text \<open>
  \<^verbatim>\<open>class Tuple\<close>: the vector \<^verbatim>\<open>fields\<close> of \<^verbatim>\<open>std::unique_ptr<Field>\<close>; an entry can be
  null.
\<close>

type_synonym Tuple = "Field option list"

text \<open>
  \<^verbatim>\<open>std::string Tuple::serialize()\<close>: the field count, a space, then every field's text.
  \<^verbatim>\<open>field->serialize()\<close> on a null entry dereferences a null pointer.
\<close>

fun serialize_fields :: "float_show \<Rightarrow> Tuple \<Rightarrow> error + string" where
  "serialize_fields fshow [] = Inr []"
| "serialize_fields fshow (None # fs) = Inl InvalidAccess"
| "serialize_fields fshow (Some f # fs) =
     (case serialize_fields fshow fs of
        Inl e \<Rightarrow> Inl e
      | Inr text \<Rightarrow> Inr (Field_serialize fshow f @ text))"

definition Tuple_serialize :: "float_show \<Rightarrow> Tuple \<Rightarrow> error + string" where
  "Tuple_serialize fshow t =
     (case serialize_fields fshow t of
        Inl e \<Rightarrow> Inl e
      | Inr text \<Rightarrow> Inr (show_nat (length t) @ '' '' @ text))"

text \<open>
  The loop of \<^verbatim>\<open>Tuple::deserialize\<close>: \<open>n\<close> more calls of \<^verbatim>\<open>Field::deserialize\<close>, each
  result pushed onto the tuple with no null check.
\<close>

fun deserialize_fields :: "float_read \<Rightarrow> nat \<Rightarrow> istream \<Rightarrow> Tuple \<Rightarrow> Tuple outcome \<times> istream" where
  "deserialize_fields fread 0 s fs = (Returns fs, s)"
| "deserialize_fields fread (Suc n) s fs =
     (case Field_deserialize fread s of
        (Indeterminate, s') \<Rightarrow> (Indeterminate, s')
      | (Returns field, s') \<Rightarrow> deserialize_fields fread n s' (fs @ [field]))"

text \<open>\<^verbatim>\<open>static std::unique_ptr<Tuple> Tuple::deserialize(std::istream&)\<close>.\<close>

definition Tuple_deserialize :: "float_read \<Rightarrow> istream \<Rightarrow> Tuple outcome \<times> istream" where
  "Tuple_deserialize fread s =
     (case stream_extract parse_size s of
        (None, s1) \<Rightarrow> (Indeterminate, s1)
      | (Some fieldCount, s1) \<Rightarrow> deserialize_fields fread (unat fieldCount) s1 [])"

text \<open>
  The successive results of \<open>n\<close> calls of \<^verbatim>\<open>Field::deserialize\<close> on a stream, used to
  state what the loop collects.
\<close>

fun decode_results :: "float_read \<Rightarrow> nat \<Rightarrow> istream \<Rightarrow> Field option outcome list" where
  "decode_results fread 0 s = []"
| "decode_results fread (Suc n) s =
     (case Field_deserialize fread s of (r, s') \<Rightarrow> r # decode_results fread n s')"

fun result_of :: "Field option outcome \<Rightarrow> Field option" where
  "result_of (Returns r) = r"
| "result_of Indeterminate = None"

text \<open>The strings and floats whose text reads back as one token.\<close>

definition plain_string :: "string \<Rightarrow> bool" where
  "plain_string s \<longleftrightarrow> s \<noteq> [] \<and> list_all (\<lambda>c. \<not> isspace c \<and> c \<noteq> CHR 0x00) s \<and> length s + 1 < 18446744073709551616"

definition float_reads_back :: "float_show \<Rightarrow> float_read \<Rightarrow> 32 word \<Rightarrow> bool" where
  "float_reads_back fshow fread x \<longleftrightarrow>
     fshow x \<noteq> [] \<and> \<not> isspace (hd (fshow x)) \<and>
     (\<forall>rest. fread (fshow x @ CHR '' '' # rest) = (x, False, CHR '' '' # rest))"

fun field_ok :: "float_show \<Rightarrow> float_read \<Rightarrow> Field \<Rightarrow> bool" where
  "field_ok fshow fread (StringField s) = plain_string s"
| "field_ok fshow fread (FloatField x) = float_reads_back fshow fread x"
| "field_ok fshow fread (IntField i) = True"

section \<open>Slots and slotted pages (storage/slot.h, storage/slotted_page.h)\<close>

text \<open>
  \<^verbatim>\<open>struct Slot { bool empty; uint16_t offset; uint16_t length; }\<close>. The field names
  \<^verbatim>\<open>empty\<close> and \<^verbatim>\<open>length\<close> carry the suffix \<open>_f\<close> here.
\<close>

record Slot =
  empty_f :: bool
  offset :: "16 word"
  length_f :: "16 word"

text \<open>
  \<^verbatim>\<open>sizeof(Slot)\<close> and the place of the members are fixed by the platform ABI; on the
  usual ABIs the flag is byte 0, byte 1 is padding, \<^verbatim>\<open>offset\<close> is bytes 2 and 3 and
  \<^verbatim>\<open>length\<close> bytes 4 and 5, least significant byte first. \<^verbatim>\<open>metadata_size\<close> is the member
  initialised to \<^verbatim>\<open>sizeof(Slot) * MAX_SLOTS\<close> and never assigned.
\<close>

definition SLOT_SIZE :: nat where
  "SLOT_SIZE = 6"

definition metadata_size :: nat where
  "metadata_size = SLOT_SIZE * MAX_SLOTS"

text \<open>
  A \<^verbatim>\<open>SlottedPage\<close> is its buffer \<^verbatim>\<open>page_data\<close> of \<^verbatim>\<open>PAGE_SIZE\<close> bytes. The slot array is a
  view of the first bytes (\<^verbatim>\<open>reinterpret_cast<Slot*>(page_data.get())\<close>).
\<close>

type_synonym SlottedPage = "byte list"

definition load16 :: "byte list \<Rightarrow> nat \<Rightarrow> 16 word" where
  "load16 pd a = of_nat (unat (pd ! a) + 256 * unat (pd ! (a + 1)))"

definition store16 :: "byte list \<Rightarrow> nat \<Rightarrow> 16 word \<Rightarrow> byte list" where
  "store16 pd a v = pd[a := ucast v, a + 1 := ucast (drop_bit 8 v)]"

text \<open>Reading and assigning the members of \<^verbatim>\<open>slot_array[i]\<close>.\<close>

definition get_empty :: "SlottedPage \<Rightarrow> nat \<Rightarrow> bool" where
  "get_empty pd i \<longleftrightarrow> pd ! (i * SLOT_SIZE) \<noteq> 0"

definition get_offset :: "SlottedPage \<Rightarrow> nat \<Rightarrow> 16 word" where
  "get_offset pd i = load16 pd (i * SLOT_SIZE + 2)"

definition get_length :: "SlottedPage \<Rightarrow> nat \<Rightarrow> 16 word" where
  "get_length pd i = load16 pd (i * SLOT_SIZE + 4)"

definition set_empty :: "SlottedPage \<Rightarrow> nat \<Rightarrow> bool \<Rightarrow> SlottedPage" where
  "set_empty pd i b = pd[i * SLOT_SIZE := (if b then 1 else 0)]"

definition set_offset :: "SlottedPage \<Rightarrow> nat \<Rightarrow> 16 word \<Rightarrow> SlottedPage" where
  "set_offset pd i v = store16 pd (i * SLOT_SIZE + 2) v"

definition set_length :: "SlottedPage \<Rightarrow> nat \<Rightarrow> 16 word \<Rightarrow> SlottedPage" where
  "set_length pd i v = store16 pd (i * SLOT_SIZE + 4) v"

definition slot_at :: "SlottedPage \<Rightarrow> nat \<Rightarrow> Slot" where
  "slot_at pd i = \<lparr>empty_f = get_empty pd i, offset = get_offset pd i, length_f = get_length pd i\<rparr>"

text \<open>
  The constructor: \<^verbatim>\<open>std::make_unique<char[]>(PAGE_SIZE)\<close> gives zero bytes, then the loop
  marks every slot empty with \<^verbatim>\<open>INVALID_VALUE\<close> in \<^verbatim>\<open>offset\<close> and \<^verbatim>\<open>length\<close>.
\<close>

definition init_slot :: "nat \<Rightarrow> SlottedPage \<Rightarrow> SlottedPage" where
  "init_slot slot_itr pd =
     set_length (set_offset (set_empty pd slot_itr True) slot_itr INVALID_VALUE) slot_itr INVALID_VALUE"

definition SlottedPage_new :: SlottedPage where
  "SlottedPage_new = fold init_slot [0..<MAX_SLOTS] (replicate PAGE_SIZE 0)"

text \<open>
  The first loop of \<^verbatim>\<open>addTuple\<close>: from \<open>slot_itr\<close> on, the first slot that is empty and
  whose \<^verbatim>\<open>length\<close> is at least \<^verbatim>\<open>tuple_size\<close>; \<^verbatim>\<open>MAX_SLOTS\<close> when the loop runs to its end.
\<close>

function find_reusable :: "SlottedPage \<Rightarrow> nat \<Rightarrow> nat \<Rightarrow> nat" where
  "find_reusable pd tuple_size slot_itr =
     (if slot_itr < MAX_SLOTS then
        (if get_empty pd slot_itr \<and> unat (get_length pd slot_itr) \<ge> tuple_size then slot_itr
         else find_reusable pd tuple_size (slot_itr + 1))
      else MAX_SLOTS)"
  by pat_completeness auto
termination
  by (relation "measure (\<lambda>(pd, tuple_size, slot_itr). MAX_SLOTS - slot_itr)") auto

text \<open>The second loop: the first slot that is empty and whose \<^verbatim>\<open>offset\<close> is \<^verbatim>\<open>INVALID_VALUE\<close>.\<close>

function find_unused :: "SlottedPage \<Rightarrow> nat \<Rightarrow> nat" where
  "find_unused pd slot_itr =
     (if slot_itr < MAX_SLOTS then
        (if get_empty pd slot_itr \<and> get_offset pd slot_itr = INVALID_VALUE then slot_itr
         else find_unused pd (slot_itr + 1))
      else MAX_SLOTS)"
  by pat_completeness auto
termination
  by (relation "measure (\<lambda>(pd, slot_itr). MAX_SLOTS - slot_itr)") auto

declare find_reusable.simps [simp del] find_unused.simps [simp del]

text \<open>The slot that the two loops settle on.\<close>

definition choose_slot :: "SlottedPage \<Rightarrow> nat \<Rightarrow> nat" where
  "choose_slot pd tuple_size =
     (let slot_itr = find_reusable pd tuple_size 0
      in if slot_itr = MAX_SLOTS then find_unused pd 0 else slot_itr)"

text \<open>\<^verbatim>\<open>std::memcpy(page_data.get() + offset, src, n)\<close> inside the page.\<close>

definition memcpy :: "byte list \<Rightarrow> nat \<Rightarrow> byte list \<Rightarrow> byte list" where
  "memcpy pd off src = take off pd @ src @ drop (off + length src) pd"

text \<open>
  \<^verbatim>\<open>bool addTuple(std::unique_ptr<Tuple>)\<close>, from the serialised tuple on (the bytes of
  \<^verbatim>\<open>serializedTuple\<close>). The local \<^verbatim>\<open>offset\<close> is a \<^verbatim>\<open>size_t\<close>; storing it into the slot keeps
  its low 16 bits. Of the three assertions only \<^verbatim>\<open>assert(offset >= metadata_size)\<close> can
  fail once the space check has passed. The result is the returned flag and the page.
\<close>

definition addTuple :: "SlottedPage \<Rightarrow> byte list \<Rightarrow> error + (bool \<times> SlottedPage)" where
  "addTuple pd serializedTuple =
     (let tuple_size = length serializedTuple;
          slot_itr = choose_slot pd tuple_size
      in if slot_itr = MAX_SLOTS then Inr (False, pd)
         else
           let pd1 = set_empty pd slot_itr False;
               off =
                 (if get_offset pd1 slot_itr = INVALID_VALUE then
                    (if slot_itr \<noteq> 0 then
                       (if get_offset pd1 (slot_itr - 1) \<noteq> INVALID_VALUE
                        then unat (get_offset pd1 (slot_itr - 1)) + unat (get_length pd1 (slot_itr - 1))
                        else metadata_size)
                     else metadata_size)
                  else unat (get_offset pd1 slot_itr));
               pd2 =
                 (if get_offset pd1 slot_itr = INVALID_VALUE then set_offset pd1 slot_itr (of_nat off)
                  else pd1)
           in if off + tuple_size \<ge> PAGE_SIZE then
                Inr (False, set_offset (set_empty pd2 slot_itr True) slot_itr INVALID_VALUE)
              else if off < metadata_size then Inl AssertionFailed
              else
                let pd3 =
                      (if get_length pd2 slot_itr = INVALID_VALUE
                       then set_length pd2 slot_itr (of_nat tuple_size) else pd2)
                in Inr (True, memcpy pd3 off serializedTuple))"

text \<open>The characters of a \<^verbatim>\<open>std::string\<close> as the bytes \<^verbatim>\<open>memcpy\<close> copies.\<close>

definition bytes_of :: "string \<Rightarrow> byte list" where
  "bytes_of s = map of_char s"

text \<open>\<^verbatim>\<open>addTuple\<close> from the tuple on: \<^verbatim>\<open>tuple->serialize()\<close> first.\<close>

definition addTuple_tuple :: "float_show \<Rightarrow> SlottedPage \<Rightarrow> Tuple \<Rightarrow> error + (bool \<times> SlottedPage)" where
  "addTuple_tuple fshow pd tuple =
     (case Tuple_serialize fshow tuple of
        Inl e \<Rightarrow> Inl e
      | Inr serializedTuple \<Rightarrow> addTuple pd (bytes_of serializedTuple))"

text \<open>\<^verbatim>\<open>void deleteTuple(size_t index)\<close>.\<close>

definition deleteTuple :: "SlottedPage \<Rightarrow> nat \<Rightarrow> SlottedPage" where
  "deleteTuple pd index =
     (if index < MAX_SLOTS \<and> \<not> get_empty pd index then set_empty pd index True else pd)"

text \<open>\<^verbatim>\<open>size_t countTuples() const\<close>: the loop from slot \<open>i\<close> on, with the count so far.\<close>

function count_from :: "SlottedPage \<Rightarrow> nat \<Rightarrow> nat \<Rightarrow> nat" where
  "count_from pd i count =
     (if i < MAX_SLOTS then count_from pd (i + 1) (if \<not> get_empty pd i then count + 1 else count)
      else count)"
  by pat_completeness auto
termination
  by (relation "measure (\<lambda>(pd, i, count). MAX_SLOTS - i)") auto

declare count_from.simps [simp del]

definition countTuples :: "SlottedPage \<Rightarrow> nat" where
  "countTuples pd = count_from pd 0 0"

text \<open>A never-used slot, as the constructor leaves it.\<close>

definition never_used :: Slot where
  "never_used = \<lparr>empty_f = True, offset = INVALID_VALUE, length_f = INVALID_VALUE\<rparr>"

text \<open>
  The vocabulary for what \<^verbatim>\<open>addTuple\<close> does, over the slot view of a page. A slot is
  \<open>reusable\<close> for a tuple when it is empty and its length member is at least the encoded
  size (the \<^verbatim>\<open>INVALID_VALUE\<close> of a never-used slot, 65535, counts as a length here); it is
  \<open>unused\<close> when it is empty and its offset member is \<^verbatim>\<open>INVALID_VALUE\<close>. The slot chosen
  is the first reusable one, or with no reusable slot the first unused one.
\<close>

definition reusable :: "SlottedPage \<Rightarrow> nat \<Rightarrow> nat \<Rightarrow> bool" where
  "reusable pd tuple_size j \<longleftrightarrow>
     empty_f (slot_at pd j) \<and> tuple_size \<le> unat (length_f (slot_at pd j))"

definition unused :: "SlottedPage \<Rightarrow> nat \<Rightarrow> bool" where
  "unused pd j \<longleftrightarrow> empty_f (slot_at pd j) \<and> offset (slot_at pd j) = INVALID_VALUE"

definition chosen_slot :: "SlottedPage \<Rightarrow> nat \<Rightarrow> nat \<Rightarrow> bool" where
  "chosen_slot pd tuple_size k \<longleftrightarrow>
     k < MAX_SLOTS \<and>
     ((reusable pd tuple_size k \<and> (\<forall>j < k. \<not> reusable pd tuple_size j)) \<or>
      ((\<forall>j < MAX_SLOTS. \<not> reusable pd tuple_size j) \<and> unused pd k \<and> (\<forall>j < k. \<not> unused pd j)))"

definition no_slot :: "SlottedPage \<Rightarrow> nat \<Rightarrow> bool" where
  "no_slot pd tuple_size \<longleftrightarrow>
     (\<forall>j < MAX_SLOTS. \<not> reusable pd tuple_size j \<and> \<not> unused pd j)"

text \<open>
  The offset given to a tuple placed in slot \<open>k\<close>: the slot's own offset when it has
  one; otherwise \<^verbatim>\<open>metadata_size\<close> for slot 0 and for a slot whose predecessor has no
  offset, and the predecessor's offset plus length in the remaining case.
\<close>

definition tuple_offset :: "SlottedPage \<Rightarrow> nat \<Rightarrow> nat" where
  "tuple_offset pd k =
     (if offset (slot_at pd k) \<noteq> INVALID_VALUE then unat (offset (slot_at pd k))
      else if k = 0 \<or> offset (slot_at pd (k - 1)) = INVALID_VALUE then metadata_size
      else unat (offset (slot_at pd (k - 1))) + unat (length_f (slot_at pd (k - 1))))"

text \<open>
  The pages that the page's own operations build. A slot that has held a tuple keeps an
  offset and a length inside the tuple area \<open>[metadata_size, PAGE_SIZE)\<close>, whether it is
  occupied or has been emptied by \<^verbatim>\<open>deleteTuple\<close>. \<open>built pd m\<close>: the first \<open>m\<close> slots of
  the page are such slots and the others are as the constructor left them. The
  constructor's page is built with \<open>m = 0\<close>; \<^verbatim>\<open>addTuple\<close> and \<^verbatim>\<open>deleteTuple\<close> keep a page
  built.
\<close>

definition in_tuple_area :: "Slot \<Rightarrow> bool" where
  "in_tuple_area sl \<longleftrightarrow>
     metadata_size \<le> unat (offset sl) \<and> unat (offset sl) + unat (length_f sl) < PAGE_SIZE"

definition built :: "SlottedPage \<Rightarrow> nat \<Rightarrow> bool" where
  "built pd m \<longleftrightarrow>
     length pd = PAGE_SIZE \<and> m \<le> MAX_SLOTS \<and>
     (\<forall>j < m. in_tuple_area (slot_at pd j)) \<and>
     (\<forall>j. m \<le> j \<and> j < MAX_SLOTS \<longrightarrow> slot_at pd j = never_used)"

text \<open>
  An emptied slot that fits a tuple: empty, with the offset it was given when it was
  used, and a retained length of at least the encoded size. \<open>first_emptied_fit\<close> is the
  first such slot of the page.
\<close>

definition emptied_fits :: "SlottedPage \<Rightarrow> nat \<Rightarrow> nat \<Rightarrow> bool" where
  "emptied_fits pd tuple_size j \<longleftrightarrow>
     j < MAX_SLOTS \<and> empty_f (slot_at pd j) \<and> offset (slot_at pd j) \<noteq> INVALID_VALUE \<and>
     tuple_size \<le> unat (length_f (slot_at pd j))"

definition first_emptied_fit :: "SlottedPage \<Rightarrow> nat \<Rightarrow> nat \<Rightarrow> bool" where
  "first_emptied_fit pd tuple_size k \<longleftrightarrow>
     emptied_fits pd tuple_size k \<and> (\<forall>j < k. \<not> emptied_fits pd tuple_size j)"

text \<open>
  The offset behind the slots used so far, for a tuple that goes into slot \<open>k\<close> for the
  first time: \<^verbatim>\<open>metadata_size\<close> for slot 0, otherwise the offset plus the length of slot
  \<open>k - 1\<close>.
\<close>

definition append_offset :: "SlottedPage \<Rightarrow> nat \<Rightarrow> nat" where
  "append_offset pd k =
     (if k = 0 then metadata_size
      else unat (offset (slot_at pd (k - 1))) + unat (length_f (slot_at pd (k - 1))))"

section \<open>The storage manager (storage/storage_manager.h)\<close>

text \<open>
  The state is the content of the database file behind \<^verbatim>\<open>fileStream\<close> and the counter
  \<^verbatim>\<open>num_pages\<close> (a \<^verbatim>\<open>size_t\<close>). Writes are taken to succeed; a read fails when the file
  ends before \<^verbatim>\<open>PAGE_SIZE\<close> bytes have been read.
\<close>

record StorageManager =
  fileStream :: "byte list"
  num_pages :: "64 word"

text \<open>\<^verbatim>\<open>void extend()\<close>: a fresh \<^verbatim>\<open>SlottedPage\<close> is written at the end of the file.\<close>

definition StorageManager_extend :: "StorageManager \<Rightarrow> StorageManager" where
  "StorageManager_extend sm =
     (let empty_page = SlottedPage_new
      in sm\<lparr>fileStream := fileStream sm @ empty_page, num_pages := num_pages sm + 1\<rparr>)"

text \<open>
  \<^verbatim>\<open>void extend(uint64_t till_page_id)\<close>: \<open>write_size\<close> zero bytes are written at the end
  of the file; the arithmetic is that of \<^verbatim>\<open>uint64_t\<close>.
\<close>

definition extend_till :: "StorageManager \<Rightarrow> 64 word \<Rightarrow> StorageManager" where
  "extend_till sm till_page_id =
     (if till_page_id < num_pages sm then sm
      else
        let pages_to_add = till_page_id + 1 - num_pages sm;
            write_size = pages_to_add * of_nat PAGE_SIZE;
            buffer = replicate (unat write_size) (0 :: byte)
        in sm\<lparr>fileStream := fileStream sm @ buffer, num_pages := till_page_id + 1\<rparr>)"

text \<open>\<^verbatim>\<open>std::unique_ptr<SlottedPage> load(PageID page_id)\<close>.\<close>

definition load :: "StorageManager \<Rightarrow> PageID \<Rightarrow> error + SlottedPage" where
  "load sm page_id =
     (if ucast page_id \<ge> num_pages sm then Inl OutOfRange
      else
        let pos = unat page_id * PAGE_SIZE
        in if pos + PAGE_SIZE \<le> length (fileStream sm)
           then Inr (take PAGE_SIZE (drop pos (fileStream sm)))
           else Inl ReadFailed)"

text \<open>
  \<^verbatim>\<open>void flush(PageID page_id, const SlottedPage& page)\<close>: \<^verbatim>\<open>PAGE_SIZE\<close> bytes written at
  \<^verbatim>\<open>page_id * PAGE_SIZE\<close>; a position beyond the end of the file leaves a gap of zero
  bytes.
\<close>

definition write_at :: "byte list \<Rightarrow> nat \<Rightarrow> byte list \<Rightarrow> byte list" where
  "write_at file pos bytes =
     take pos (file @ replicate (pos - length file) 0) @ bytes @ drop (pos + length bytes) file"

definition flush :: "StorageManager \<Rightarrow> PageID \<Rightarrow> SlottedPage \<Rightarrow> StorageManager" where
  "flush sm page_id page = sm\<lparr>fileStream := write_at (fileStream sm) (unat page_id * PAGE_SIZE) page\<rparr>"

definition getNumPages :: "StorageManager \<Rightarrow> 64 word" where
  "getNumPages sm = num_pages sm"

text \<open>A file that holds whole pages only, as many as \<^verbatim>\<open>num_pages\<close> counts.\<close>

definition whole_pages :: "StorageManager \<Rightarrow> bool" where
  "whole_pages sm \<longleftrightarrow> length (fileStream sm) = unat (num_pages sm) * PAGE_SIZE"

section \<open>Buffer frames and the buffer manager (buffer/buffer_frame.h, buffer/buffer_manager.h)\<close>

text \<open>
  The model follows one thread. A \<^verbatim>\<open>std::shared_mutex\<close> is then its set of holders: none,
  one exclusive holder, or a number of shared holders. \<^verbatim>\<open>try_lock\<close> succeeds exactly on
  an unlocked mutex and \<^verbatim>\<open>try_lock_shared\<close> exactly on one with no exclusive holder.
\<close>

datatype shared_mutex = Unlocked | LockedExclusive | LockedShared nat

definition unlock :: "shared_mutex \<Rightarrow> shared_mutex" where
  "unlock m = Unlocked"

fun unlock_shared :: "shared_mutex \<Rightarrow> shared_mutex" where
  "unlock_shared (LockedShared (Suc (Suc n))) = LockedShared (Suc n)"
| "unlock_shared m = Unlocked"

fun lock_shared :: "shared_mutex \<Rightarrow> shared_mutex" where
  "lock_shared (LockedShared n) = LockedShared (Suc n)"
| "lock_shared m = LockedShared 1"

text \<open>
  The members \<^verbatim>\<open>page_id_\<close> and \<^verbatim>\<open>is_dirty_\<close> of \<^verbatim>\<open>BufferFrame\<close> are \<open>frame_page_id\<close> and
  \<open>frame_is_dirty\<close> here; the members of \<^verbatim>\<open>BufferManager\<close> lose their trailing underscore.
\<close>

record BufferFrame =
  frame_page_id :: PageID
  frame_is_dirty :: bool
  page :: SlottedPage
  mutex :: shared_mutex

text \<open>
  \<^verbatim>\<open>buffer_pool_\<close> is the vector of \<^verbatim>\<open>std::unique_ptr<BufferFrame>\<close> (\<open>None\<close> is a null
  pointer), \<^verbatim>\<open>empty_slots_\<close> the vector used as a stack (its back is the last element),
  and the two \<^verbatim>\<open>std::unordered_map\<close>s are partial maps. A \<^verbatim>\<open>BufferFrame&\<close> handed to a
  caller is the index of the frame in the pool.
\<close>

record BufferManager =
  storage_manager :: StorageManager
  buffer_pool :: "BufferFrame option list"
  policy :: TwoQPolicy
  empty_slots :: "FrameID list"
  frame_of_page :: "PageID \<rightharpoonup> FrameID"
  page_state :: "PageID \<rightharpoonup> PageState"
  capacity :: nat

text \<open>The constructor, over a storage manager that has opened its file.\<close>

definition BufferManager_new :: "nat \<Rightarrow> StorageManager \<Rightarrow> BufferManager" where
  "BufferManager_new cap sm =
     \<lparr>storage_manager = sm, buffer_pool = replicate cap None, policy = TwoQPolicy_new,
      empty_slots = [0..<cap], frame_of_page = Map.empty, page_state = Map.empty,
      capacity = cap\<rparr>"

text \<open>
  \<^verbatim>\<open>frame_of_page_[page_id]\<close> and \<^verbatim>\<open>page_state_[page_id]\<close>: \<^verbatim>\<open>operator[]\<close> of an unordered
  map inserts a zero for a missing key.
\<close>

definition subscript :: "('k \<rightharpoonup> 'v) \<Rightarrow> 'k \<Rightarrow> 'v \<Rightarrow> 'v \<times> ('k \<rightharpoonup> 'v)" where
  "subscript m k zero = (case m k of Some v \<Rightarrow> (v, m) | None \<Rightarrow> (zero, m(k \<mapsto> zero)))"

text \<open>\<^verbatim>\<open>*buffer_pool_[frame_id]\<close>: the frame, when the index is in range and not null.\<close>

definition frame_at :: "BufferManager \<Rightarrow> FrameID \<Rightarrow> BufferFrame option" where
  "frame_at bm frame_id =
     (if frame_id < length (buffer_pool bm) then buffer_pool bm ! frame_id else None)"

text \<open>
  The first half of \<^verbatim>\<open>load_page_locked\<close>: with no empty slot, choose a victim, flush it
  if dirty, forget it and push its frame slot.
\<close>

definition make_room :: "BufferManager \<Rightarrow> error + BufferManager" where
  "make_room bm =
     (if empty_slots bm = [] then
        (case evict (page_state bm) (policy bm) of
           Inl e \<Rightarrow> Inl e
         | Inr (victim_page, pol) \<Rightarrow>
             (case subscript (frame_of_page bm) victim_page 0 of
                (victim_frame, fop) \<Rightarrow>
                  (case frame_at bm victim_frame of
                     None \<Rightarrow> Inl InvalidAccess
                   | Some fr \<Rightarrow>
                       Inr (bm\<lparr>storage_manager :=
                                  (if frame_is_dirty fr
                                   then flush (storage_manager bm) victim_page (page fr)
                                   else storage_manager bm),
                                policy := pol,
                                page_state := (page_state bm)(victim_page := None),
                                frame_of_page := fop(victim_page := None),
                                empty_slots := empty_slots bm @ [victim_frame]\<rparr>))))
      else Inr bm)"

text \<open>
  \<^verbatim>\<open>BufferFrame& load_page_locked(PageID page_id, bool exclusive)\<close>: the index of the frame
  and the new state. The mutex of the new frame is fresh, so locking it succeeds.
\<close>

definition load_page_locked :: "BufferManager \<Rightarrow> PageID \<Rightarrow> bool \<Rightarrow> error + (FrameID \<times> BufferManager)" where
  "load_page_locked bm page_id exclusive =
     (case make_room bm of
        Inl e \<Rightarrow> Inl e
      | Inr bm1 \<Rightarrow>
          let slot = last (empty_slots bm1);
              sm = (if ucast page_id \<ge> getNumPages (storage_manager bm1)
                    then extend_till (storage_manager bm1) (ucast page_id)
                    else storage_manager bm1)
          in case load sm page_id of
               Inl e \<Rightarrow> Inl e
             | Inr pg \<Rightarrow>
                 if slot \<ge> length (buffer_pool bm1) then Inl InvalidAccess
                 else
                   Inr (slot,
                     bm1\<lparr>storage_manager := sm,
                         empty_slots := butlast (empty_slots bm1),
                         buffer_pool := (buffer_pool bm1)
                           [slot := Some \<lparr>frame_page_id = page_id, frame_is_dirty = False, page = pg,
                              mutex = (if exclusive then LockedExclusive else LockedShared 1)\<rparr>],
                         page_state := (page_state bm1)
                           (page_id \<mapsto> (if exclusive then PAGE_EXCLUSIVE else 1)),
                         frame_of_page := (frame_of_page bm1)(page_id \<mapsto> slot),
                         policy := snd (touch page_id (policy bm1))\<rparr>))"

text \<open>
  \<^verbatim>\<open>BufferFrame& fix_page(PageID page_id, bool exclusive)\<close>. The \<^verbatim>\<open>while (true)\<close> loop
  tries again after a failed \<^verbatim>\<open>try_lock\<close>; with no other thread to release the latch the
  retry meets the same state, and the call never returns: the value \<open>None\<close>.
\<close>

partial_function (option) fix_page ::
  "BufferManager \<Rightarrow> PageID \<Rightarrow> bool \<Rightarrow> (error + (FrameID \<times> BufferManager)) option" where
  "fix_page bm page_id exclusive =
     (case page_state bm page_id of
        None \<Rightarrow> Some (load_page_locked bm page_id exclusive)
      | Some st \<Rightarrow>
          (case subscript (frame_of_page bm) page_id 0 of
             (frame_id, fop) \<Rightarrow>
               (case frame_at bm frame_id of
                  None \<Rightarrow> Some (Inl InvalidAccess)
                | Some fr \<Rightarrow>
                    if exclusive then
                      (if mutex fr = Unlocked then
                         (if st \<noteq> PAGE_UNFIXED then Some (Inl AssertionFailed)
                          else Some (Inr (frame_id,
                            bm\<lparr>frame_of_page := fop,
                               buffer_pool := (buffer_pool bm)[frame_id := Some (fr\<lparr>mutex := LockedExclusive\<rparr>)],
                               page_state := (page_state bm)(page_id \<mapsto> PAGE_EXCLUSIVE),
                               policy := snd (touch page_id (policy bm))\<rparr>)))
                       else fix_page (bm\<lparr>frame_of_page := fop\<rparr>) page_id exclusive)
                    else
                      (if mutex fr \<noteq> LockedExclusive then
                         (if st < 0 then Some (Inl AssertionFailed)
                          else Some (Inr (frame_id,
                            bm\<lparr>frame_of_page := fop,
                               buffer_pool := (buffer_pool bm)[frame_id := Some (fr\<lparr>mutex := lock_shared (mutex fr)\<rparr>)],
                               page_state := (page_state bm)(page_id \<mapsto> st + 1),
                               policy := snd (touch page_id (policy bm))\<rparr>)))
                       else fix_page (bm\<lparr>frame_of_page := fop\<rparr>) page_id exclusive))))"

text \<open>
  \<^verbatim>\<open>void unfix_page(BufferFrame& frame, bool is_dirty)\<close>, the frame given by its index.
\<close>

definition unfix_page :: "BufferManager \<Rightarrow> FrameID \<Rightarrow> bool \<Rightarrow> error + BufferManager" where
  "unfix_page bm frame_id is_dirty =
     (case frame_at bm frame_id of
        None \<Rightarrow> Inl InvalidAccess
      | Some fr0 \<Rightarrow>
          let fr = (if is_dirty then fr0\<lparr>frame_is_dirty := True\<rparr> else fr0);
              page_id = frame_page_id fr
          in case subscript (page_state bm) page_id 0 of
               (st, ps) \<Rightarrow>
                 if st = PAGE_EXCLUSIVE then
                   Inr (bm\<lparr>page_state := ps(page_id \<mapsto> PAGE_UNFIXED),
                          buffer_pool := (buffer_pool bm)[frame_id := Some (fr\<lparr>mutex := unlock (mutex fr)\<rparr>)]\<rparr>)
                 else if st > 0 then
                   Inr (bm\<lparr>page_state := ps(page_id \<mapsto> st - 1),
                          buffer_pool := (buffer_pool bm)[frame_id := Some (fr\<lparr>mutex := unlock_shared (mutex fr)\<rparr>)]\<rparr>)
                 else Inl UnfixUnfixed)"

text \<open>\<^verbatim>\<open>void extend()\<close> and \<^verbatim>\<open>size_t getNumPages() const\<close> of the buffer manager.\<close>

definition BufferManager_extend :: "BufferManager \<Rightarrow> BufferManager" where
  "BufferManager_extend bm = bm\<lparr>storage_manager := StorageManager_extend (storage_manager bm)\<rparr>"

definition BufferManager_getNumPages :: "BufferManager \<Rightarrow> 64 word" where
  "BufferManager_getNumPages bm = getNumPages (storage_manager bm)"

text \<open>Writing through \<^verbatim>\<open>frame.page\<close>: the page of a frame replaced.\<close>

definition set_frame_page :: "BufferManager \<Rightarrow> FrameID \<Rightarrow> SlottedPage \<Rightarrow> BufferManager" where
  "set_frame_page bm frame_id pg =
     (case frame_at bm frame_id of
        None \<Rightarrow> bm
      | Some fr \<Rightarrow> bm\<lparr>buffer_pool := (buffer_pool bm)[frame_id := Some (fr\<lparr>page := pg\<rparr>)]\<rparr>)"

section \<open>The insert operator (execution/insert_operator.h)\<close>

text \<open>
  The operator holds a reference to the buffer manager (here: the buffer manager state
  goes in and comes out) and the staged tuple \<^verbatim>\<open>tuple_to_insert_\<close> (\<open>None\<close> when the pointer
  is null).
\<close>

record InsertOperator =
  tuple_to_insert :: "Tuple option"

definition setTupleToInsert :: "InsertOperator \<Rightarrow> Tuple \<Rightarrow> InsertOperator" where
  "setTupleToInsert op t = op\<lparr>tuple_to_insert := Some t\<rparr>"

text \<open>
  To state in which order \<^verbatim>\<open>next()\<close> calls the buffer manager, the model of \<^verbatim>\<open>next()\<close>
  returns, besides its result and the new states, the list of the calls it made:
  \<open>Fix p e\<close> for \<^verbatim>\<open>fix_page(p, e)\<close>, \<open>AddTuple p r\<close> for \<^verbatim>\<open>addTuple\<close> on the page of that
  frame with its result \<open>r\<close>, \<open>Unfix p d\<close> for \<^verbatim>\<open>unfix_page(frame, d)\<close> on the frame of
  page \<open>p\<close>, and \<open>Extend\<close> for \<^verbatim>\<open>extend()\<close>.
\<close>

datatype call = Fix PageID bool | AddTuple PageID bool | Unfix PageID bool | Extend

text \<open>
  One attempt: \<^verbatim>\<open>fix_page(page_id, true)\<close>, \<^verbatim>\<open>frame.page->addTuple(clone)\<close>, then
  \<^verbatim>\<open>unfix_page(frame, true)\<close> after a success and \<^verbatim>\<open>unfix_page(frame, false)\<close> after a
  failure. The result is whether the tuple was added, the new buffer manager state and
  the calls made; \<open>None\<close> when \<^verbatim>\<open>fix_page\<close> never returns.
\<close>

definition try_page ::
  "float_show \<Rightarrow> Tuple \<Rightarrow> BufferManager \<Rightarrow> PageID \<Rightarrow> (error + (bool \<times> BufferManager \<times> call list)) option" where
  "try_page fshow t bm page_id =
     (case fix_page bm page_id True of
        None \<Rightarrow> None
      | Some (Inl e) \<Rightarrow> Some (Inl e)
      | Some (Inr (frame_id, bm1)) \<Rightarrow>
          (case frame_at bm1 frame_id of
             None \<Rightarrow> Some (Inl InvalidAccess)
           | Some fr \<Rightarrow>
               (case addTuple_tuple fshow (page fr) t of
                  Inl e \<Rightarrow> Some (Inl e)
                | Inr (added, pg) \<Rightarrow>
                    (case unfix_page (set_frame_page bm1 frame_id pg) frame_id added of
                       Inl e \<Rightarrow> Some (Inl e)
                     | Inr bm2 \<Rightarrow>
                         Some (Inr (added, bm2,
                           [Fix page_id True, AddTuple page_id added, Unfix page_id added]))))))"

text \<open>
  The loop \<^verbatim>\<open>for (size_t page_idx = 0; page_idx < num_pages; ++page_idx)\<close> from
  \<open>page_idx\<close> on; \<^verbatim>\<open>static_cast<PageID>(page_idx)\<close> keeps the low 16 bits. It stops at
  the first page that takes the tuple.
\<close>

function scan_pages ::
  "float_show \<Rightarrow> Tuple \<Rightarrow> BufferManager \<Rightarrow> nat \<Rightarrow> nat \<Rightarrow> (error + (bool \<times> BufferManager \<times> call list)) option" where
  "scan_pages fshow t bm page_idx n =
     (if page_idx < n then
        (case try_page fshow t bm (of_nat page_idx) of
           None \<Rightarrow> None
         | Some (Inl e) \<Rightarrow> Some (Inl e)
         | Some (Inr (added, bm1, calls)) \<Rightarrow>
             if added then Some (Inr (True, bm1, calls))
             else
               (case scan_pages fshow t bm1 (page_idx + 1) n of
                  None \<Rightarrow> None
                | Some (Inl e) \<Rightarrow> Some (Inl e)
                | Some (Inr (found, bm2, calls')) \<Rightarrow> Some (Inr (found, bm2, calls @ calls'))))
      else Some (Inr (False, bm, [])))"
  by pat_completeness auto
termination
  by (relation "measure (\<lambda>(fshow, t, bm, page_idx, n). n - page_idx)") auto

declare scan_pages.simps [simp del]

text \<open>
  \<^verbatim>\<open>bool InsertOperator::next()\<close>: the returned flag, the operator, the buffer manager and
  the calls made.
\<close>

definition Insert_next ::
  "float_show \<Rightarrow> InsertOperator \<Rightarrow> BufferManager
     \<Rightarrow> (error + (bool \<times> InsertOperator \<times> BufferManager \<times> call list)) option" where
  "Insert_next fshow op bm =
     (case tuple_to_insert op of
        None \<Rightarrow> Some (Inr (False, op, bm, []))
      | Some t \<Rightarrow>
          (case scan_pages fshow t bm 0 (unat (BufferManager_getNumPages bm)) of
             None \<Rightarrow> None
           | Some (Inl e) \<Rightarrow> Some (Inl e)
           | Some (Inr (found, bm1, calls)) \<Rightarrow>
               if found then Some (Inr (True, op\<lparr>tuple_to_insert := None\<rparr>, bm1, calls))
               else
                 let bm2 = BufferManager_extend bm1;
                     new_page = ucast (BufferManager_getNumPages bm2 - 1)
                 in case try_page fshow t bm2 new_page of
                      None \<Rightarrow> None
                    | Some (Inl e) \<Rightarrow> Some (Inl e)
                    | Some (Inr (added, bm3, calls')) \<Rightarrow>
                        if added
                        then Some (Inr (True, op\<lparr>tuple_to_insert := None\<rparr>, bm3, calls @ Extend # calls'))
                        else Some (Inr (False, op, bm3, calls @ Extend # calls'))))"

text \<open>The calls of a failed attempt on each page of a list, in order.\<close>

definition failed_attempts :: "nat list \<Rightarrow> call list" where
  "failed_attempts ps =
     concat (map (\<lambda>i. [Fix (of_nat i) True, AddTuple (of_nat i) False, Unfix (of_nat i) False]) ps)"

section \<open>Well-formed buffer manager states\<close>

text \<open>The page stored at a page id in the file.\<close>

definition file_page :: "StorageManager \<Rightarrow> PageID \<Rightarrow> SlottedPage" where
  "file_page sm p = take PAGE_SIZE (drop (unat p * PAGE_SIZE) (fileStream sm))"

text \<open>
  The page that a \<^verbatim>\<open>fix_page\<close> of \<open>p\<close> gives access to: the page of its frame when \<open>p\<close> is
  resident, the page in the file otherwise.
\<close>

definition current_page :: "BufferManager \<Rightarrow> PageID \<Rightarrow> SlottedPage" where
  "current_page bm p =
     (case frame_of_page bm p of
        None \<Rightarrow> file_page (storage_manager bm) p
      | Some f \<Rightarrow> (case frame_at bm f of None \<Rightarrow> [] | Some fr \<Rightarrow> page fr))"

text \<open>
  The states the buffer manager reaches through its own methods, seen between calls of
  one thread that holds an exclusive fix on exactly the pages in \<open>F\<close> and nothing
  else: the file holds whole pages, at most \<open>2^16\<close> of them; the policy tracks exactly
  the resident pages, each once; every resident page lies in the file, has a frame of
  its own that holds it, and is \<^verbatim>\<open>PAGE_EXCLUSIVE\<close> with its latch held exclusively when
  in \<open>F\<close> and \<^verbatim>\<open>PAGE_UNFIXED\<close> with a free latch otherwise; the empty frame slots are
  distinct and in use by no page; and with no empty slot left some page is resident.
\<close>

definition bm_ok :: "PageID set \<Rightarrow> BufferManager \<Rightarrow> bool" where
  "bm_ok F bm \<longleftrightarrow>
     whole_pages (storage_manager bm) \<and>
     unat (num_pages (storage_manager bm)) \<le> 65536 \<and>
     dom (page_state bm) = tracked (policy bm) \<and>
     dom (frame_of_page bm) = tracked (policy bm) \<and>
     distinct (fifo_queue (policy bm) @ lru_queue (policy bm)) \<and>
     F \<subseteq> tracked (policy bm) \<and>
     (\<forall>p f. frame_of_page bm p = Some f \<longrightarrow>
        f < length (buffer_pool bm) \<and> f \<notin> set (empty_slots bm) \<and>
        unat p < unat (num_pages (storage_manager bm)) \<and>
        page_state bm p = Some (if p \<in> F then PAGE_EXCLUSIVE else PAGE_UNFIXED) \<and>
        (\<exists>fr. buffer_pool bm ! f = Some fr \<and> frame_page_id fr = p \<and>
           length (page fr) = PAGE_SIZE \<and>
           mutex fr = (if p \<in> F then LockedExclusive else Unlocked))) \<and>
     distinct (empty_slots bm) \<and>
     (\<forall>f. f \<in> set (empty_slots bm) \<longrightarrow> f < length (buffer_pool bm)) \<and>
     (empty_slots bm = [] \<longrightarrow> tracked (policy bm) \<noteq> {})"

text \<open>
  A page \<open>accepts\<close> an encoded tuple when \<^verbatim>\<open>addTuple\<close> returns on it, that is, when the
  assertion on the offset holds. \<open>pages_accept ser idx bm\<close>: every page with an id from
  \<open>idx\<close> on does, in the file and in the pool.
\<close>

definition accepts :: "SlottedPage \<Rightarrow> byte list \<Rightarrow> bool" where
  "accepts pg ser \<longleftrightarrow> addTuple pg ser \<noteq> Inl AssertionFailed"

definition pages_accept :: "byte list \<Rightarrow> nat \<Rightarrow> BufferManager \<Rightarrow> bool" where
  "pages_accept ser idx bm \<longleftrightarrow>
     (\<forall>p. idx \<le> unat p \<and> unat p < unat (num_pages (storage_manager bm)) \<longrightarrow>
        accepts (file_page (storage_manager bm) p) ser \<and> accepts (current_page bm p) ser)"

text \<open>
  What a call on one page leaves of the others: the number of pages stays, and a page
  in the file or in the pool is what it was in the file or in the pool (a dirty page may
  have been written back, a clean one dropped and read again).
\<close>

definition others_kept :: "BufferManager \<Rightarrow> BufferManager \<Rightarrow> bool" where
  "others_kept bm bm' \<longleftrightarrow>
     num_pages (storage_manager bm') = num_pages (storage_manager bm) \<and>
     (\<forall>p. unat p < unat (num_pages (storage_manager bm)) \<longrightarrow>
        (file_page (storage_manager bm') p = file_page (storage_manager bm) p \<or>
         file_page (storage_manager bm') p = current_page bm p) \<and>
        (current_page bm' p = current_page bm p \<or>
         current_page bm' p = file_page (storage_manager bm) p))"
section \<open>Eviction and touch of the 2Q policy\<close>

lemma scan_queue_None:
  "scan_queue st xs = None \<longleftrightarrow> (\<forall>x \<in> set xs. st x \<noteq> Some PAGE_UNFIXED)"
  by (induction xs) (auto split: option.splits)

lemma scan_queue_SomeD:
  "scan_queue st xs = Some (v, rest) \<Longrightarrow>
     \<exists>pre post. xs = pre @ v # post \<and> rest = pre @ post \<and> st v = Some PAGE_UNFIXED \<and>
        (\<forall>x \<in> set pre. st x \<noteq> Some PAGE_UNFIXED)"
proof (induction xs arbitrary: rest)
  case Nil
  then show ?case by simp
next
  case (Cons x xs)
  show ?case
  proof (cases "st x = Some PAGE_UNFIXED")
    case True
    with Cons.prems have "x = v" "rest = xs" by simp_all
    with True have "x # xs = [] @ v # xs \<and> rest = [] @ xs \<and> st v = Some PAGE_UNFIXED \<and>
        (\<forall>y \<in> set []. st y \<noteq> Some PAGE_UNFIXED)" by simp
    then show ?thesis by blast
  next
    case False
    with Cons.prems obtain r where r: "scan_queue st xs = Some (v, r)" "rest = x # r"
      by (auto split: option.splits)
    from Cons.IH [OF r(1)] obtain pre post where
      "xs = pre @ v # post" "r = pre @ post" "st v = Some PAGE_UNFIXED"
      "\<forall>y \<in> set pre. st y \<noteq> Some PAGE_UNFIXED" by blast
    with False r(2) have "x # xs = (x # pre) @ v # post \<and> rest = (x # pre) @ post \<and>
        st v = Some PAGE_UNFIXED \<and> (\<forall>y \<in> set (x # pre). st y \<noteq> Some PAGE_UNFIXED)"
      by simp
    then show ?thesis by blast
  qed
qed

lemma evict_cases:
  "evict st s = Inl BufferFull \<or> (\<exists>v s'. evict st s = Inr (v, s'))"
  by (auto simp: evict_def split: option.splits)

lemma evict_BufferFull_iff:
  "evict st s = Inl BufferFull \<longleftrightarrow> (\<forall>p \<in> tracked s. \<not> is_unfixed st p)"
proof -
  have "evict st s = Inl BufferFull \<longleftrightarrow>
          scan_queue st (fifo_queue s) = None \<and> scan_queue st (lru_queue s) = None"
    by (auto simp: evict_def split: option.splits)
  also have "\<dots> \<longleftrightarrow> (\<forall>p \<in> tracked s. \<not> is_unfixed st p)"
    unfolding scan_queue_None tracked_def is_unfixed_def by blast
  finally show ?thesis .
qed

lemma evict_InrD:
  assumes "evict st s = Inr (v, s')"
  shows "(\<exists>pre post. fifo_queue s = pre @ v # post \<and> (\<forall>p \<in> set pre. \<not> is_unfixed st p) \<and>
            is_unfixed st v \<and> s' = s\<lparr>fifo_queue := pre @ post\<rparr>)
       \<or> ((\<forall>p \<in> set (fifo_queue s). \<not> is_unfixed st p) \<and>
          (\<exists>pre post. lru_queue s = pre @ v # post \<and> (\<forall>p \<in> set pre. \<not> is_unfixed st p) \<and>
            is_unfixed st v \<and> s' = s\<lparr>lru_queue := pre @ post\<rparr>))"
proof (cases "scan_queue st (fifo_queue s)")
  case None
  with assms obtain rest where l: "scan_queue st (lru_queue s) = Some (v, rest)"
    and s': "s' = s\<lparr>lru_queue := rest\<rparr>"
    by (auto simp: evict_def split: option.splits)
  from None have "\<forall>p \<in> set (fifo_queue s). \<not> is_unfixed st p"
    by (simp add: scan_queue_None is_unfixed_def)
  moreover from scan_queue_SomeD [OF l] s'
  have "\<exists>pre post. lru_queue s = pre @ v # post \<and> (\<forall>p \<in> set pre. \<not> is_unfixed st p) \<and>
            is_unfixed st v \<and> s' = s\<lparr>lru_queue := pre @ post\<rparr>"
    unfolding is_unfixed_def by blast
  ultimately show ?thesis by blast
next
  case (Some a)
  with assms obtain rest where f: "scan_queue st (fifo_queue s) = Some (v, rest)"
    and s': "s' = s\<lparr>fifo_queue := rest\<rparr>"
    by (cases a) (auto simp: evict_def split: option.splits)
  from scan_queue_SomeD [OF f] s'
  have "\<exists>pre post. fifo_queue s = pre @ v # post \<and> (\<forall>p \<in> set pre. \<not> is_unfixed st p) \<and>
            is_unfixed st v \<and> s' = s\<lparr>fifo_queue := pre @ post\<rparr>"
    unfolding is_unfixed_def by blast
  then show ?thesis by blast
qed

text \<open>
  C1. \<^verbatim>\<open>evict(state_of_page)\<close> either fails with \<open>BufferFull\<close> or returns a page. It
  fails exactly when no tracked page is held by the state map as \<^verbatim>\<open>PAGE_UNFIXED\<close>. A
  returned page \<open>v\<close> has state \<^verbatim>\<open>PAGE_UNFIXED\<close> (so neither \<^verbatim>\<open>PAGE_EXCLUSIVE\<close> nor a
  positive shared count), and it is the first such page of the FIFO queue read from the
  front, or, when the FIFO queue has none, the first such page of the LRU queue; the new
  state is the old one with exactly that node removed from its queue.
\<close>

theorem evict_first_unfixed:
  "(evict st s = Inl BufferFull \<or> (\<exists>v s'. evict st s = Inr (v, s'))) \<and>
   (evict st s = Inl BufferFull \<longleftrightarrow> (\<forall>p \<in> tracked s. \<not> is_unfixed st p)) \<and>
   (\<forall>v s'. evict st s = Inr (v, s') \<longrightarrow>
      st v = Some PAGE_UNFIXED \<and> st v \<noteq> Some PAGE_EXCLUSIVE \<and> (\<forall>n. 0 < n \<longrightarrow> st v \<noteq> Some n) \<and>
      ((\<exists>pre post. fifo_queue s = pre @ v # post \<and> (\<forall>p \<in> set pre. \<not> is_unfixed st p) \<and>
            s' = s\<lparr>fifo_queue := pre @ post\<rparr>)
       \<or> ((\<forall>p \<in> set (fifo_queue s). \<not> is_unfixed st p) \<and>
          (\<exists>pre post. lru_queue s = pre @ v # post \<and> (\<forall>p \<in> set pre. \<not> is_unfixed st p) \<and>
            s' = s\<lparr>lru_queue := pre @ post\<rparr>))))"
proof (intro conjI allI impI)
  show "evict st s = Inl BufferFull \<or> (\<exists>v s'. evict st s = Inr (v, s'))"
    by (rule evict_cases)
  show "evict st s = Inl BufferFull \<longleftrightarrow> (\<forall>p \<in> tracked s. \<not> is_unfixed st p)"
    by (rule evict_BufferFull_iff)
next
  fix v s' assume e: "evict st s = Inr (v, s')"
  from evict_InrD [OF e] show u: "st v = Some PAGE_UNFIXED"
    by (auto simp: is_unfixed_def)
  from u show "st v \<noteq> Some PAGE_EXCLUSIVE"
    by (simp add: PAGE_UNFIXED_def PAGE_EXCLUSIVE_def)
  from evict_InrD [OF e]
  show "(\<exists>pre post. fifo_queue s = pre @ v # post \<and> (\<forall>p \<in> set pre. \<not> is_unfixed st p) \<and>
            s' = s\<lparr>fifo_queue := pre @ post\<rparr>)
       \<or> ((\<forall>p \<in> set (fifo_queue s). \<not> is_unfixed st p) \<and>
          (\<exists>pre post. lru_queue s = pre @ v # post \<and> (\<forall>p \<in> set pre. \<not> is_unfixed st p) \<and>
            s' = s\<lparr>lru_queue := pre @ post\<rparr>))"
    by blast
  fix n :: int assume "0 < n"
  with u show "st v \<noteq> Some n" by (simp add: PAGE_UNFIXED_def)
qed

text \<open>
  The theorem at FIFO = [7, 8], LRU = [9], with page 7 held exclusively, page 8 shared by
  two holders and page 9 unfixed: the scan passes over both FIFO pages and takes page 9.
\<close>

theorem evict_first_unfixed_witness:
  "evict [7 \<mapsto> PAGE_EXCLUSIVE, 8 \<mapsto> 2, 9 \<mapsto> PAGE_UNFIXED]
       \<lparr>fifo_queue = [7, 8], lru_queue = [9]\<rparr> = Inr (9, \<lparr>fifo_queue = [7, 8], lru_queue = []\<rparr>) \<and>
   [7 \<mapsto> PAGE_EXCLUSIVE, 8 \<mapsto> 2, 9 \<mapsto> PAGE_UNFIXED] (9 :: PageID) = Some PAGE_UNFIXED \<and>
   [7 \<mapsto> PAGE_EXCLUSIVE, 8 \<mapsto> 2, 9 \<mapsto> PAGE_UNFIXED] (9 :: PageID) \<noteq> Some PAGE_EXCLUSIVE"
proof -
  have e: "evict [7 \<mapsto> PAGE_EXCLUSIVE, 8 \<mapsto> 2, 9 \<mapsto> PAGE_UNFIXED]
       \<lparr>fifo_queue = [7, 8], lru_queue = [9]\<rparr> = Inr (9, \<lparr>fifo_queue = [7, 8], lru_queue = []\<rparr>)"
    by (simp add: evict_def PAGE_UNFIXED_def PAGE_EXCLUSIVE_def)
  from evict_first_unfixed [THEN conjunct2, THEN conjunct2, rule_format, OF e] e
  show ?thesis by simp
qed

lemma unlink_first: "p \<notin> set pre \<Longrightarrow> unlink p (pre @ p # post) = pre @ post"
  by (induction pre) auto

lemma unlink_notin: "p \<notin> set xs \<Longrightarrow> unlink p xs = xs"
  by (induction xs) auto

lemma set_unlink_distinct: "distinct xs \<Longrightarrow> set (unlink p xs) = set xs - {p}"
  by (induction xs) auto

lemma distinct_unlink: "distinct xs \<Longrightarrow> distinct (unlink p xs)"
  by (induction xs) (auto simp: set_unlink_distinct)

text \<open>
  C2. \<^verbatim>\<open>touch(page_id)\<close>: a page found in FIFO leaves FIFO, is appended to the tail of
  LRU, and the call returns true; a page found in LRU moves to the tail of LRU and the
  call returns true; any other page is appended to the tail of FIFO and the call returns
  false. Starting from the empty policy, touching 1, 2, ..., 10 and then 1 again leaves
  FIFO = [2, ..., 10] and LRU = [1].
\<close>

theorem touch_moves_page:
  "(\<forall>pre post. fifo_queue s = pre @ p # post \<and> p \<notin> set pre \<longrightarrow>
      touch p s = (True, s\<lparr>fifo_queue := pre @ post, lru_queue := lru_queue s @ [p]\<rparr>)) \<and>
   (\<forall>pre post. p \<notin> set (fifo_queue s) \<and> lru_queue s = pre @ p # post \<and> p \<notin> set pre \<longrightarrow>
      touch p s = (True, s\<lparr>lru_queue := pre @ post @ [p]\<rparr>)) \<and>
   (p \<notin> set (fifo_queue s) \<and> p \<notin> set (lru_queue s) \<longrightarrow>
      touch p s = (False, s\<lparr>fifo_queue := fifo_queue s @ [p]\<rparr>)) \<and>
   (fst (touch p s) \<longleftrightarrow> p \<in> tracked s) \<and>
   touch_all [1, 2, 3, 4, 5, 6, 7, 8, 9, 10, 1] TwoQPolicy_new =
     \<lparr>fifo_queue = [2, 3, 4, 5, 6, 7, 8, 9, 10], lru_queue = [1]\<rparr>"
proof (intro conjI allI impI)
  fix pre post assume "fifo_queue s = pre @ p # post \<and> p \<notin> set pre"
  then show "touch p s = (True, s\<lparr>fifo_queue := pre @ post, lru_queue := lru_queue s @ [p]\<rparr>)"
    by (simp add: touch_def unlink_first)
next
  fix pre post
  assume "p \<notin> set (fifo_queue s) \<and> lru_queue s = pre @ p # post \<and> p \<notin> set pre"
  then show "touch p s = (True, s\<lparr>lru_queue := pre @ post @ [p]\<rparr>)"
    by (simp add: touch_def unlink_first)
next
  assume "p \<notin> set (fifo_queue s) \<and> p \<notin> set (lru_queue s)"
  then show "touch p s = (False, s\<lparr>fifo_queue := fifo_queue s @ [p]\<rparr>)"
    by (simp add: touch_def)
next
  show "fst (touch p s) \<longleftrightarrow> p \<in> tracked s"
    by (simp add: touch_def tracked_def)
next
  show "touch_all [1, 2, 3, 4, 5, 6, 7, 8, 9, 10, 1] TwoQPolicy_new =
     \<lparr>fifo_queue = [2, 3, 4, 5, 6, 7, 8, 9, 10], lru_queue = [1]\<rparr>"
    by (simp add: touch_all_def touch_def TwoQPolicy_new_def)
qed

text \<open>The three cases of the theorem on a small policy state, one after the other.\<close>

theorem touch_moves_page_witness:
  "touch 4 \<lparr>fifo_queue = [3, 4, 5], lru_queue = [6]\<rparr> =
     (True, \<lparr>fifo_queue = [3, 5], lru_queue = [6, 4]\<rparr>) \<and>
   touch 6 \<lparr>fifo_queue = [3, 5], lru_queue = [6, 4]\<rparr> =
     (True, \<lparr>fifo_queue = [3, 5], lru_queue = [4, 6]\<rparr>) \<and>
   touch 7 \<lparr>fifo_queue = [3, 5], lru_queue = [4, 6]\<rparr> =
     (False, \<lparr>fifo_queue = [3, 5, 7], lru_queue = [4, 6]\<rparr>)"
proof -
  have a: "fifo_queue \<lparr>fifo_queue = [3, 4, 5], lru_queue = [6]\<rparr> = [3] @ (4 :: PageID) # [5]
      \<and> (4 :: PageID) \<notin> set [3]"
    by simp
  have b: "(6 :: PageID) \<notin> set (fifo_queue \<lparr>fifo_queue = [3, 5], lru_queue = [6, 4]\<rparr>)
      \<and> lru_queue \<lparr>fifo_queue = [3, 5], lru_queue = [6, 4]\<rparr> = [] @ (6 :: PageID) # [4]
      \<and> (6 :: PageID) \<notin> set []"
    by simp
  have c: "(7 :: PageID) \<notin> set (fifo_queue \<lparr>fifo_queue = [3, 5], lru_queue = [4, 6]\<rparr>)
      \<and> (7 :: PageID) \<notin> set (lru_queue \<lparr>fifo_queue = [3, 5], lru_queue = [4, 6]\<rparr>)"
    by simp
  from touch_moves_page [THEN conjunct1, rule_format, OF a]
       touch_moves_page [THEN conjunct2, THEN conjunct1, rule_format, OF b]
       touch_moves_page [THEN conjunct2, THEN conjunct2, THEN conjunct1, rule_format, OF c]
  show ?thesis by simp
qed

text \<open>\<^verbatim>\<open>touch\<close> keeps the two queues free of repetitions and disjoint.\<close>

lemma touch_keeps_disjoint:
  "distinct (fifo_queue s @ lru_queue s) \<Longrightarrow>
     distinct (fifo_queue (snd (touch p s)) @ lru_queue (snd (touch p s)))"
  by (auto simp: touch_def set_unlink_distinct distinct_unlink)

section \<open>Field comparison and arithmetic\<close>

lemma string_less_lexord:
  "string_less a b \<longleftrightarrow>
     (map of_char a, map of_char b) \<in> lexord {(x :: nat, y). x < y}"
  by (induction a b rule: string_less.induct) auto

lemma c_str_id: "CHR 0x00 \<notin> set s \<Longrightarrow> c_str s = s"
  by (simp add: c_str_def takeWhile_eq_all_conv) auto

text \<open>
  An \<^verbatim>\<open>INT\<close> field against a \<^verbatim>\<open>STRING\<close> field: the type ordinals are 0 and 2, yet
  \<^verbatim>\<open>operator<\<close> answers false, and it has written a line to \<^verbatim>\<open>std::cerr\<close>.
\<close>

theorem Field_less_mixed_types_counterexample:
  "FieldType_ordinal (getType (IntField 1)) < FieldType_ordinal (getType (StringField ''a'')) \<and>
   fst (Field_less (IntField 1) (StringField ''a'')) = False \<and>
   snd (Field_less (IntField 1) (StringField ''a'')) = incompatible_msg \<and>
   incompatible_msg \<noteq> []"
  by (simp add: incompatible_msg_def)

text \<open>
  C7, as the code has it. \<^verbatim>\<open>a == b\<close> holds exactly when both fields have the same type
  and the same value (integers and strings by identity, floats by IEEE equality), and
  it writes nothing. When the types differ, \<^verbatim>\<open>!=\<close>, \<^verbatim>\<open><\<close>, \<^verbatim>\<open>>\<close>, \<^verbatim>\<open><=\<close> and \<^verbatim>\<open>>=\<close> all
  answer false and write one diagnostic line to \<^verbatim>\<open>std::cerr\<close>; the type ordinal plays no
  part. When the types agree they write nothing, and \<^verbatim>\<open><\<close> is the order of the values:
  signed order on integers, IEEE order on floats, lexicographic order of the bytes on
  (C) strings. No operator fails.
\<close>

theorem Field_comparison_policy:
  "(fst (Field_eq a b) \<longleftrightarrow>
      getType a = getType b \<and>
      (case (a, b) of
         (IntField x, IntField y) \<Rightarrow> x = y
       | (FloatField x, FloatField y) \<Rightarrow> float_eq x y
       | (StringField x, StringField y) \<Rightarrow> x = y
       | _ \<Rightarrow> False)) \<and>
   snd (Field_eq a b) = [] \<and>
   (getType a \<noteq> getType b \<longrightarrow>
      Field_less a b = (False, incompatible_msg) \<and> Field_neq a b = (False, incompatible_msg) \<and>
      Field_greater a b = (False, incompatible_msg) \<and> Field_le a b = (False, incompatible_msg) \<and>
      Field_ge a b = (False, incompatible_msg)) \<and>
   (getType a = getType b \<longrightarrow>
      snd (Field_less a b) = [] \<and> snd (Field_neq a b) = [] \<and> snd (Field_greater a b) = [] \<and>
      snd (Field_le a b) = [] \<and> snd (Field_ge a b) = [] \<and>
      (fst (Field_less a b) \<longleftrightarrow>
        (case (a, b) of
           (IntField x, IntField y) \<Rightarrow> sint x < sint y
         | (FloatField x, FloatField y) \<Rightarrow> float_less x y
         | (StringField x, StringField y) \<Rightarrow>
             (map of_char (c_str x), map of_char (c_str y)) \<in> lexord {(u :: nat, v). u < v}
         | _ \<Rightarrow> False)))"
  by (cases a; cases b) (simp_all add: string_less_lexord word_sless_alt)

text \<open>A mixed comparison, a string comparison and an integer comparison.\<close>

theorem Field_comparison_policy_witness:
  "Field_less (StringField ''apple'') (IntField 10) = (False, incompatible_msg) \<and>
   Field_less (StringField ''apple'') (StringField ''banana'') = (True, []) \<and>
   Field_less (IntField (- 5)) (IntField 3) = (True, [])"
proof -
  have d: "getType (StringField ''apple'') \<noteq> getType (IntField 10)" by simp
  have e: "getType (StringField ''apple'') = getType (StringField ''banana'')" by simp
  have i: "getType (IntField (- 5)) = getType (IntField 3)" by simp
  have l: "(map of_char (c_str ''apple''), map of_char (c_str ''banana''))
             \<in> lexord {(u :: nat, v). u < v}"
    by (simp add: c_str_def)
  have m: "sint (- 5 :: 32 word) < sint (3 :: 32 word)" by simp
  from Field_comparison_policy [of "StringField ''apple''" "IntField 10",
          THEN conjunct2, THEN conjunct2, THEN conjunct1, rule_format, OF d]
       Field_comparison_policy [of "StringField ''apple''" "StringField ''banana''",
          THEN conjunct2, THEN conjunct2, THEN conjunct2, rule_format, OF e] l
       Field_comparison_policy [of "IntField (- 5)" "IntField 3",
          THEN conjunct2, THEN conjunct2, THEN conjunct2, rule_format, OF i] m
  show ?thesis by (simp add: prod_eq_iff)
qed

text \<open>
  Adding the integer 1 to the float field 3.0 (bit pattern \<open>0x40400000\<close>), as the
  repository's own field test does: the call returns the unchanged field.
\<close>

theorem Field_add_mismatch_counterexample:
  "getType (FloatField 0x40400000) \<noteq> INT_T \<and>
   Field_add_int (FloatField 0x40400000) 1 = FloatField 0x40400000"
  by simp

text \<open>
  C8, as the code has it. \<^verbatim>\<open>f += n\<close> with an \<^verbatim>\<open>int\<close> leaves \<open>f\<close> unchanged when its tag is
  not \<^verbatim>\<open>INT\<close>, and \<^verbatim>\<open>f += x\<close> with a \<^verbatim>\<open>float\<close> leaves it unchanged when its tag is not
  \<^verbatim>\<open>FLOAT\<close>; neither fails. When the tag matches, the stored value becomes the sum
  (the exact integer sum whenever that fits 32 bits) and the tag is unchanged.
\<close>

theorem Field_add_in_place:
  "(getType f \<noteq> INT_T \<longrightarrow> Field_add_int f n = f) \<and>
   (getType f \<noteq> FLOAT_T \<longrightarrow> Field_add_float fadd f x = f) \<and>
   (\<forall>v. f = IntField v \<longrightarrow>
      Field_add_int f n = IntField (v + n) \<and>
      (- (2 ^ 31) \<le> sint v + sint n \<and> sint v + sint n < 2 ^ 31 \<longrightarrow>
         asInt (Field_add_int f n) = Some (word_of_int (sint v + sint n)) \<and>
         sint (v + n) = sint v + sint n)) \<and>
   (\<forall>v. f = FloatField v \<longrightarrow> Field_add_float fadd f x = FloatField (fadd v x)) \<and>
   getType (Field_add_int f n) = getType f \<and>
   getType (Field_add_float fadd f x) = getType f"
proof -
  have s: "sint (v + n) = sint v + sint n"
    if "- (2 ^ 31) \<le> sint v + sint n \<and> sint v + sint n < 2 ^ 31" for v :: "32 word"
    using that by (simp add: sint_word_add signed_take_bit_int_eq_self)
  show ?thesis
    by (cases f) (auto simp: s)
qed

text \<open>Matching and mismatching tags on concrete fields.\<close>

theorem Field_add_in_place_witness:
  "Field_add_int (IntField 10) 5 = IntField 15 \<and>
   sint (10 + 5 :: 32 word) = 15 \<and>
   Field_add_int (StringField ''abc'') 5 = StringField ''abc'' \<and>
   Field_add_float (\<lambda>a b. a) (IntField 10) 0x3FC00000 = IntField 10"
proof -
  have a: "getType (StringField ''abc'') \<noteq> INT_T" by simp
  have b: "getType (IntField 10) \<noteq> FLOAT_T" by simp
  have c: "IntField 10 = IntField 10" by simp
  have r: "- (2 ^ 31) \<le> sint (10 :: 32 word) + sint (5 :: 32 word) \<and>
           sint (10 :: 32 word) + sint (5 :: 32 word) < 2 ^ 31" by simp
  from Field_add_in_place [of "StringField ''abc''" 5, THEN conjunct1, rule_format, OF a]
       Field_add_in_place [of "IntField 10" _ "\<lambda>a b. a" "0x3FC00000",
          THEN conjunct2, THEN conjunct1, rule_format, OF b]
       Field_add_in_place [of "IntField 10" 5, THEN conjunct2, THEN conjunct2, THEN conjunct1,
          rule_format, OF c, THEN conjunct2, rule_format, OF r]
       Field_add_in_place [of "IntField 10" 5, THEN conjunct2, THEN conjunct2, THEN conjunct1,
          rule_format, OF c, THEN conjunct1]
  show ?thesis by simp
qed

section \<open>Round trip of the text format\<close>

subsection \<open>Decimal digits\<close>

lemma digit_cases:
  "d < 10 \<Longrightarrow> d = 0 \<or> d = 1 \<or> d = 2 \<or> d = 3 \<or> d = 4 \<or> d = 5 \<or> d = 6 \<or> d = 7 \<or> d = 8 \<or> d = (9 :: nat)"
  by arith

lemma isdigit_digit_char: "d < 10 \<Longrightarrow> isdigit (digit_char d)"
  by (drule digit_cases) (auto simp: isdigit_def digit_char_def)

lemma digit_val_digit_char: "d < 10 \<Longrightarrow> digit_val (digit_char d) = d"
  by (drule digit_cases) (auto simp: digit_val_def digit_char_def)

lemma isdigit_not_space: "isdigit c \<Longrightarrow> \<not> isspace c"
  by (auto simp: isdigit_def isspace_def)

lemma isdigit_not_sign: "isdigit c \<Longrightarrow> c \<noteq> CHR ''-'' \<and> c \<noteq> CHR ''+''"
  by (auto simp: isdigit_def)

lemma space_not_digit: "\<not> isdigit CHR '' ''"
  by (simp add: isdigit_def)

lemma show_nat_digits: "list_all isdigit (show_nat n)"
proof (induction n rule: show_nat.induct)
  case (1 n)
  show ?case
  proof (cases "n < 10")
    case True
    then show ?thesis by (subst show_nat.simps) (simp add: isdigit_digit_char)
  next
    case False
    with 1 have "list_all isdigit (show_nat (n div 10))" by simp
    moreover have "isdigit (digit_char (n mod 10))" by (simp add: isdigit_digit_char)
    ultimately show ?thesis using False by (subst show_nat.simps) simp
  qed
qed

lemma show_nat_nonempty: "show_nat n \<noteq> []"
  by (subst show_nat.simps) simp

lemma digits_val_snoc: "digits_val (ds @ [c]) = 10 * digits_val ds + digit_val c"
  by (simp add: digits_val_def)

lemma digits_val_show_nat: "digits_val (show_nat n) = n"
proof (induction n rule: show_nat.induct)
  case (1 n)
  show ?case
  proof (cases "n < 10")
    case True
    then show ?thesis by (subst show_nat.simps) (simp add: digits_val_def digit_val_digit_char)
  next
    case False
    with 1 have "digits_val (show_nat (n div 10)) = n div 10" by simp
    then have "digits_val (show_nat (n div 10) @ [digit_char (n mod 10)]) = n"
      by (simp add: digits_val_snoc digit_val_digit_char)
    with False show ?thesis by (subst show_nat.simps) simp
  qed
qed

lemma takeWhile_run:
  "list_all P xs \<Longrightarrow> \<not> P c \<Longrightarrow> takeWhile P (xs @ c # rest) = xs"
  by (induction xs) auto

lemma dropWhile_run:
  "list_all P xs \<Longrightarrow> \<not> P c \<Longrightarrow> dropWhile P (xs @ c # rest) = c # rest"
  by (induction xs) auto

lemma hd_show_nat_digit: "isdigit (hd (show_nat n))"
  using show_nat_digits [of n] show_nat_nonempty [of n]
  by (cases "show_nat n") simp_all

lemma split_sign_digit: "b \<noteq> [] \<Longrightarrow> isdigit (hd b) \<Longrightarrow> split_sign b = (False, b)"
  by (cases b) (auto simp: split_sign_def dest: isdigit_not_sign)

lemma parse_size_show_nat:
  assumes "n < 18446744073709551616"
  shows "parse_size (show_nat n @ CHR '' '' # rest) = (of_nat n, False, CHR '' '' # rest)"
proof -
  have s: "split_sign (show_nat n @ CHR '' '' # rest) = (False, show_nat n @ CHR '' '' # rest)"
    using hd_show_nat_digit [of n] show_nat_nonempty [of n]
    by (intro split_sign_digit) simp_all
  show ?thesis
    using assms show_nat_nonempty [of n]
    by (simp add: parse_size_def s takeWhile_run dropWhile_run show_nat_digits space_not_digit
        digits_val_show_nat)
qed

lemma parse_int_show_int:
  assumes "- 2147483648 \<le> i" "i \<le> 2147483647"
  shows "parse_int (show_int i @ CHR '' '' # rest) = (word_of_int i, False, CHR '' '' # rest)"
proof (cases "i < 0")
  case True
  have s: "split_sign (show_int i @ CHR '' '' # rest) = (True, show_nat (nat (- i)) @ CHR '' '' # rest)"
    using True by (simp add: show_int_def split_sign_def)
  show ?thesis
    using assms True show_nat_nonempty [of "nat (- i)"]
    by (simp add: parse_int_def s takeWhile_run dropWhile_run show_nat_digits space_not_digit
        digits_val_show_nat)
next
  case False
  have s: "split_sign (show_int i @ CHR '' '' # rest) = (False, show_nat (nat i) @ CHR '' '' # rest)"
    using False hd_show_nat_digit [of "nat i"] show_nat_nonempty [of "nat i"]
    unfolding show_int_def by (simp add: split_sign_digit)
  show ?thesis
    using assms False show_nat_nonempty [of "nat i"]
    by (simp add: parse_int_def s takeWhile_run dropWhile_run show_nat_digits
        space_not_digit digits_val_show_nat)
qed

lemma hd_show_int_not_space: "\<not> isspace (hd (show_int i))"
  using isdigit_not_space [OF hd_show_nat_digit]
  by (simp add: show_int_def isspace_def)

lemma show_int_nonempty: "show_int i \<noteq> []"
  by (simp add: show_int_def show_nat_nonempty)

lemma hd_show_nat_not_space: "\<not> isspace (hd (show_nat n))"
  by (rule isdigit_not_space [OF hd_show_nat_digit])

subsection \<open>Extraction of one token\<close>

lemma stream_extract_token:
  assumes "\<not> failbit s" "dropWhile isspace (buf s) = b" "b \<noteq> []" "parse b = (v, False, r)"
  shows "stream_extract parse s = (Some v, \<lparr>buf = r, failbit = False\<rparr>)"
  using assms by (simp add: stream_extract_def Let_def)

lemma dropWhile_space_token:
  "list_all isspace pre \<Longrightarrow> tok \<noteq> [] \<Longrightarrow> \<not> isspace (hd tok) \<Longrightarrow>
     dropWhile isspace (pre @ tok @ rest) = tok @ rest"
  by (induction pre) (auto simp: dropWhile_append3 hd_conv_nth neq_Nil_conv)

subsection \<open>Round trip of one field\<close>

lemma c_str_plain: "plain_string s \<Longrightarrow> c_str s = s"
  by (auto simp: plain_string_def c_str_def takeWhile_eq_all_conv list_all_iff)

lemma parse_string_plain:
  "plain_string s \<Longrightarrow> parse_string (s @ CHR '' '' # rest) = (s, False, CHR '' '' # rest)"
  by (simp add: parse_string_def plain_string_def takeWhile_run dropWhile_run isspace_def
      list_all_iff)

lemma hd_plain_not_space: "plain_string s \<Longrightarrow> \<not> isspace (hd s)"
  by (cases s) (auto simp: plain_string_def)

lemma sint_range32: "- 2147483648 \<le> sint (i :: 32 word) \<and> sint i \<le> 2147483647"
  using sint_ge [of i] sint_lt [of i] by simp

lemma read_tag:
  assumes "\<not> failbit s" "dropWhile isspace (buf s) = show_int t @ CHR '' '' # rest"
    and "- 2147483648 \<le> t" "t \<le> 2147483647"
  shows "stream_extract parse_int s = (Some (word_of_int t), \<lparr>buf = CHR '' '' # rest, failbit = False\<rparr>)"
  using assms by (intro stream_extract_token [where b = "show_int t @ CHR '' '' # rest"])
    (simp_all add: parse_int_show_int)

lemma read_size:
  assumes "\<not> failbit s" "dropWhile isspace (buf s) = show_nat n @ CHR '' '' # rest"
    and "n < 18446744073709551616"
  shows "stream_extract parse_size s = (Some (of_nat n), \<lparr>buf = CHR '' '' # rest, failbit = False\<rparr>)"
  using assms by (intro stream_extract_token [where b = "show_nat n @ CHR '' '' # rest"])
    (simp_all add: parse_size_show_nat)

lemma skip_one_space:
  "tok \<noteq> [] \<Longrightarrow> \<not> isspace (hd tok) \<Longrightarrow> dropWhile isspace (CHR '' '' # tok @ rest) = tok @ rest"
  using dropWhile_space_token [of "[CHR '' '']" tok rest] by (simp add: isspace_def)

lemma Field_deserialize_serialize:
  assumes ok: "field_ok fshow fread f"
    and s: "\<not> failbit s" "dropWhile isspace (buf s) = Field_serialize fshow f @ rest"
  shows "Field_deserialize fread s = (Returns (Some f), \<lparr>buf = CHR '' '' # rest, failbit = False\<rparr>)"
proof (cases f)
  case (IntField i)
  let ?s1 = "\<lparr>buf = CHR '' '' # show_nat 4 @ CHR '' '' # show_int (sint i) @ CHR '' '' # rest, failbit = False\<rparr>"
  let ?s2 = "\<lparr>buf = CHR '' '' # show_int (sint i) @ CHR '' '' # rest, failbit = False\<rparr>"
  have t: "stream_extract parse_int s = (Some 0, ?s1)"
    using s IntField read_tag [of s 0] by simp
  have l: "stream_extract parse_size ?s1 = (Some 4, ?s2)"
    using skip_one_space [OF show_nat_nonempty hd_show_nat_not_space, of 4] read_size [of ?s1 4]
    by simp
  have v: "stream_extract parse_int ?s2 = (Some i, \<lparr>buf = CHR '' '' # rest, failbit = False\<rparr>)"
    using skip_one_space [OF show_int_nonempty hd_show_int_not_space, of "sint i"] sint_range32 [of i]
      read_tag [of ?s2 "sint i"]
    by simp
  show ?thesis
    using IntField by (simp add: Field_deserialize_def t l v)
next
  case (FloatField x)
  let ?s1 = "\<lparr>buf = CHR '' '' # show_nat 4 @ CHR '' '' # fshow x @ CHR '' '' # rest, failbit = False\<rparr>"
  let ?s2 = "\<lparr>buf = CHR '' '' # fshow x @ CHR '' '' # rest, failbit = False\<rparr>"
  from ok FloatField have fx: "fshow x \<noteq> []" "\<not> isspace (hd (fshow x))"
    "fread (fshow x @ CHR '' '' # rest) = (x, False, CHR '' '' # rest)"
    by (simp_all add: float_reads_back_def)
  have t: "stream_extract parse_int s = (Some 1, ?s1)"
    using s FloatField read_tag [of s 1] by simp
  have l: "stream_extract parse_size ?s1 = (Some 4, ?s2)"
    using skip_one_space [OF show_nat_nonempty hd_show_nat_not_space, of 4] read_size [of ?s1 4]
    by simp
  have v: "stream_extract fread ?s2 = (Some x, \<lparr>buf = CHR '' '' # rest, failbit = False\<rparr>)"
    using skip_one_space [OF fx(1,2)] fx
    by (intro stream_extract_token [where b = "fshow x @ CHR '' '' # rest"]) simp_all
  show ?thesis
    using FloatField by (simp add: Field_deserialize_def t l v)
next
  case (StringField str)
  let ?s1 = "\<lparr>buf = CHR '' '' # show_nat (Suc (length str)) @ CHR '' '' # str @ CHR '' '' # rest, failbit = False\<rparr>"
  let ?s2 = "\<lparr>buf = CHR '' '' # str @ CHR '' '' # rest, failbit = False\<rparr>"
  from ok StringField have p: "plain_string str" by simp
  then have ne: "str \<noteq> []" and len: "length str + 1 < 18446744073709551616"
    by (simp_all add: plain_string_def)
  have t: "stream_extract parse_int s = (Some 2, ?s1)"
    using s StringField c_str_plain [OF p] read_tag [of s 2] by simp
  have l: "stream_extract parse_size ?s1 = (Some (of_nat (Suc (length str))), ?s2)"
    using skip_one_space [OF show_nat_nonempty hd_show_nat_not_space, of "Suc (length str)"] len
      read_size [of ?s1 "Suc (length str)"]
    by simp
  have v: "stream_extract parse_string ?s2 = (Some str, \<lparr>buf = CHR '' '' # rest, failbit = False\<rparr>)"
    using skip_one_space [OF ne hd_plain_not_space [OF p]] ne parse_string_plain [OF p]
    by (intro stream_extract_token [where b = "str @ CHR '' '' # rest"]) simp_all
  show ?thesis
    using StringField by (simp add: Field_deserialize_def t l v)
qed

lemma Field_serialize_starts:
  "Field_serialize fshow f \<noteq> [] \<and> \<not> isspace (hd (Field_serialize fshow f))"
  using show_int_nonempty hd_show_int_not_space
  by (cases f) (simp_all add: hd_append)

subsection \<open>Round trip of a tuple\<close>

lemma serialize_fields_Some:
  "\<exists>text. serialize_fields fshow (map Some fs) = Inr text"
  by (induction fs) auto

lemma deserialize_fields_serialize:
  assumes "serialize_fields fshow (map Some fs) = Inr body"
    and "list_all (field_ok fshow fread) fs"
    and "\<not> failbit s" "buf s = CHR '' '' # body @ rest"
  shows "\<exists>s'. deserialize_fields fread (length fs) s acc = (Returns (acc @ map Some fs), s')"
  using assms
proof (induction fs arbitrary: body s acc)
  case Nil
  then show ?case by simp
next
  case (Cons f fs)
  from serialize_fields_Some obtain more where t': "serialize_fields fshow (map Some fs) = Inr more"
    by blast
  with Cons.prems(1) have bd: "body = Field_serialize fshow f @ more" by simp
  from Cons.prems(2) have ok: "field_ok fshow fread f" "list_all (field_ok fshow fread) fs"
    by simp_all
  have d: "dropWhile isspace (buf s) = Field_serialize fshow f @ (more @ rest)"
    using Cons.prems(4) bd Field_serialize_starts [of fshow f]
      skip_one_space [of "Field_serialize fshow f" "more @ rest"] by simp
  let ?s1 = "\<lparr>buf = CHR '' '' # more @ rest, failbit = False\<rparr>"
  have f: "Field_deserialize fread s = (Returns (Some f), ?s1)"
    using Field_deserialize_serialize [OF ok(1) Cons.prems(3) d] by simp
  from Cons.IH [OF t' ok(2), of ?s1 "acc @ [Some f]"]
  obtain s' where "deserialize_fields fread (length fs) ?s1 (acc @ [Some f])
      = (Returns ((acc @ [Some f]) @ map Some fs), s')" by auto
  with f show ?case by simp
qed

text \<open>
  C5, as the code has it. For every tuple whose string fields are non-empty and free of
  white space and NUL, and whose float fields are written as a text that the library
  reads back to the same float, serialising and then deserialising yields the same
  tuple: the same number of fields, each of the same type and value. (The field count
  and every string length fit \<^verbatim>\<open>size_t\<close>.)
\<close>

theorem Tuple_roundtrip:
  assumes "list_all (field_ok fshow fread) fs" and "length fs < 18446744073709551616"
  shows "\<exists>text. Tuple_serialize fshow (map Some fs) = Inr text \<and>
           fst (Tuple_deserialize fread (istream_of text)) = Returns (map Some fs)"
proof -
  from serialize_fields_Some obtain body where b: "serialize_fields fshow (map Some fs) = Inr body"
    by blast
  let ?text = "show_nat (length fs) @ CHR '' '' # body"
  have ser: "Tuple_serialize fshow (map Some fs) = Inr ?text"
    by (simp add: Tuple_serialize_def b)
  let ?s1 = "\<lparr>buf = CHR '' '' # body, failbit = False\<rparr>"
  have c: "stream_extract parse_size (istream_of ?text) = (Some (of_nat (length fs)), ?s1)"
    using assms(2) dropWhile_space_token [of "[]" "show_nat (length fs)" "CHR '' '' # body"]
      show_nat_nonempty hd_show_nat_not_space
      read_size [of "istream_of ?text" "length fs" body]
    by (simp add: istream_of_def)
  have u: "unat (of_nat (length fs) :: 64 word) = length fs"
    using assms(2) by (simp add: unat_of_nat)
  from deserialize_fields_serialize [OF b assms(1), of ?s1 "[]" "[]"]
  obtain s' where "deserialize_fields fread (length fs) ?s1 [] = (Returns (map Some fs), s')"
    by auto
  then have "fst (Tuple_deserialize fread (istream_of ?text)) = Returns (map Some fs)"
    by (simp add: Tuple_deserialize_def c u)
  with ser show ?thesis by blast
qed

subsection \<open>Concrete streams, and what deserialisation collects\<close>

lemma deserialize_fields_numeral:
  "deserialize_fields fread (numeral k) s fs = deserialize_fields fread (Suc (pred_numeral k)) s fs"
  by (simp add: numeral_eq_Suc)

lemma decode_results_numeral:
  "decode_results fread (numeral k) s = decode_results fread (Suc (pred_numeral k)) s"
  by (simp add: numeral_eq_Suc)

lemma deserialize_fields_1:
  "deserialize_fields fread 1 s fs = deserialize_fields fread (Suc 0) s fs"
  by simp

lemmas stream_eval = deserialize_fields_numeral decode_results_numeral deserialize_fields_1 stream_extract_def parse_size_def parse_int_def parse_string_def split_sign_def
  isdigit_def isspace_def digits_val_def digit_val_def digit_char_def istream_of_def
  Field_deserialize_def Tuple_deserialize_def Tuple_serialize_def show_int_def show_nat.simps
  c_str_def

text \<open>A tuple of a string and a negative integer satisfies the hypotheses.\<close>

theorem Tuple_roundtrip_witness:
  "list_all (field_ok (\<lambda>x. ''0'') (\<lambda>b. (0, False, b))) [StringField ''abc'', IntField (- 5)] \<and>
   (\<exists>body. Tuple_serialize (\<lambda>x. ''0'') [Some (StringField ''abc''), Some (IntField (- 5))] = Inr body \<and>
      fst (Tuple_deserialize (\<lambda>b. (0, False, b)) (istream_of body)) =
        Returns [Some (StringField ''abc''), Some (IntField (- 5))])"
proof -
  have h: "list_all (field_ok (\<lambda>x. ''0'') (\<lambda>b. (0, False, b))) [StringField ''abc'', IntField (- 5)]"
    by (simp add: plain_string_def isspace_def)
  have n: "length [StringField ''abc'', IntField (- 5)] < 18446744073709551616" by simp
  from Tuple_roundtrip [OF h n] h show ?thesis by simp
qed

text \<open>
  The tuple \<open>("", 5)\<close>: the empty string has no white space, it is written as no
  character at all between two spaces, and the reader takes the next token, the type
  tag \<open>0\<close> of the second field, for the string. The second field is then read from the
  wrong position, has the unknown tag 4, and comes back null.
\<close>

theorem Tuple_roundtrip_empty_string_counterexample:
  "list_all (\<lambda>c. \<not> isspace c) '''' \<and>
   (\<forall>fshow. Tuple_serialize fshow [Some (StringField ''''), Some (IntField 5)] = Inr ''2 2 1  0 4 5 '') \<and>
   (\<forall>fread. fst (Tuple_deserialize fread (istream_of ''2 2 1  0 4 5 '')) =
      Returns [Some (StringField ''0''), None]) \<and>
   Returns [Some (StringField ''0''), None] \<noteq> Returns [Some (StringField ''''), Some (IntField 5)]"
  by (simp add: stream_eval)

text \<open>
  A stream announcing one field whose type tag is 7: the count is read as 1,
  \<^verbatim>\<open>Field::deserialize\<close> returns \<^verbatim>\<open>nullptr\<close>, and \<^verbatim>\<open>Tuple::deserialize\<close> returns a tuple
  whose only entry is that null pointer.
\<close>

theorem Tuple_deserialize_unknown_tag_counterexample:
  "stream_extract parse_size (istream_of ''1 7 4 42 '') =
     (Some 1, \<lparr>buf = '' 7 4 42 '', failbit = False\<rparr>) \<and>
   (\<forall>fread. fst (Field_deserialize fread \<lparr>buf = '' 7 4 42 '', failbit = False\<rparr>) = Returns None) \<and>
   (\<forall>fread. fst (Tuple_deserialize fread (istream_of ''1 7 4 42 '')) = Returns [None])"
  by (simp add: stream_eval)

lemma length_decode_results: "length (decode_results fread n s) = n"
  by (induction n arbitrary: s) (auto split: prod.splits)

lemma deserialize_fields_decode:
  "Indeterminate \<notin> set (decode_results fread n s) \<Longrightarrow>
     \<exists>s'. deserialize_fields fread n s acc = (Returns (acc @ map result_of (decode_results fread n s)), s')"
proof (induction n arbitrary: s acc)
  case 0
  then show ?case by simp
next
  case (Suc n)
  obtain r s1 where f: "Field_deserialize fread s = (r, s1)" by (cases "Field_deserialize fread s")
  with Suc.prems have r: "r \<noteq> Indeterminate" and rest: "Indeterminate \<notin> set (decode_results fread n s1)"
    by auto
  from r obtain x where x: "r = Returns x" by (cases r) auto
  from Suc.IH [OF rest, of "acc @ [x]"] f x show ?case by simp
qed

lemma deserialize_fields_indeterminate:
  "Indeterminate \<in> set (decode_results fread n s) \<Longrightarrow>
     fst (deserialize_fields fread n s acc) = Indeterminate"
proof (induction n arbitrary: s acc)
  case 0
  then show ?case by simp
next
  case (Suc n)
  obtain r s1 where f: "Field_deserialize fread s = (r, s1)" by (cases "Field_deserialize fread s")
  show ?case
  proof (cases r)
    case Indeterminate
    with f show ?thesis by simp
  next
    case (Returns x)
    with Suc.prems f have "Indeterminate \<in> set (decode_results fread n s1)" by simp
    from Suc.IH [OF this, of "acc @ [x]"] f Returns show ?thesis by simp
  qed
qed

lemma Field_deserialize_unknown_tag:
  assumes "stream_extract parse_int s = (Some t, s1)"
    and "sint t \<noteq> FieldType_ordinal INT_T" "sint t \<noteq> FieldType_ordinal FLOAT_T"
      "sint t \<noteq> FieldType_ordinal STRING_T"
  shows "fst (Field_deserialize fread s) = Returns None"
  using assms by (simp add: Field_deserialize_def split: prod.splits)

text \<open>
  C9, as the code has it. Let the leading field count be read as \<open>n\<close>, and take the \<open>n\<close>
  calls of \<^verbatim>\<open>Field::deserialize\<close> that follow. A call returns \<^verbatim>\<open>nullptr\<close> whenever the type
  tag it reads is none of 0, 1, 2. A call has no defined result when it uses a variable
  that no extraction has written: the type tag, or the value of an \<^verbatim>\<open>INT\<close> or \<^verbatim>\<open>FLOAT\<close>
  field, read from a stream that has failed before or holds nothing but white space.

  \<^item> When every one of the \<open>n\<close> calls has a defined result, \<^verbatim>\<open>Tuple::deserialize\<close>
    returns the tuple of the \<open>n\<close> results, a null entry standing wherever a call returned
    \<^verbatim>\<open>nullptr\<close>. No failure is raised.

  \<^item> When one of them has none, neither has \<^verbatim>\<open>Tuple::deserialize\<close>.
\<close>

theorem Tuple_deserialize_collects:
  assumes "stream_extract parse_size s = (Some n, s1)"
  shows "length (decode_results fread (unat n) s1) = unat n \<and>
    (Indeterminate \<notin> set (decode_results fread (unat n) s1) \<longrightarrow>
       fst (Tuple_deserialize fread s) = Returns (map result_of (decode_results fread (unat n) s1))) \<and>
    (Indeterminate \<in> set (decode_results fread (unat n) s1) \<longrightarrow>
       fst (Tuple_deserialize fread s) = Indeterminate) \<and>
    (\<forall>s' t s''. stream_extract parse_int s' = (Some t, s'') \<and> sint t \<noteq> FieldType_ordinal INT_T \<and>
        sint t \<noteq> FieldType_ordinal FLOAT_T \<and> sint t \<noteq> FieldType_ordinal STRING_T \<longrightarrow>
        fst (Field_deserialize fread s') = Returns None)"
proof (intro conjI impI allI)
  show "length (decode_results fread (unat n) s1) = unat n"
    by (rule length_decode_results)
next
  assume "Indeterminate \<notin> set (decode_results fread (unat n) s1)"
  from deserialize_fields_decode [OF this, of "[]"] assms
  show "fst (Tuple_deserialize fread s) = Returns (map result_of (decode_results fread (unat n) s1))"
    by (auto simp: Tuple_deserialize_def)
next
  assume "Indeterminate \<in> set (decode_results fread (unat n) s1)"
  from deserialize_fields_indeterminate [OF this, of "[]"] assms
  show "fst (Tuple_deserialize fread s) = Indeterminate"
    by (simp add: Tuple_deserialize_def)
next
  fix s' t s''
  assume "stream_extract parse_int s' = (Some t, s'') \<and> sint t \<noteq> FieldType_ordinal INT_T \<and>
        sint t \<noteq> FieldType_ordinal FLOAT_T \<and> sint t \<noteq> FieldType_ordinal STRING_T"
  then show "fst (Field_deserialize fread s') = Returns None"
    by (simp add: Field_deserialize_unknown_tag)
qed

text \<open>A stream announcing two fields, the first with the unknown tag 7.\<close>

theorem Tuple_deserialize_collects_witness:
  "stream_extract parse_size (istream_of ''2 7 4 42 0 4 5 '') =
     (Some 2, \<lparr>buf = '' 7 4 42 0 4 5 '', failbit = False\<rparr>) \<and>
   decode_results (\<lambda>b. (0, False, b)) 2 \<lparr>buf = '' 7 4 42 0 4 5 '', failbit = False\<rparr> =
     [Returns None, Returns None] \<and>
   fst (Tuple_deserialize (\<lambda>b. (0, False, b)) (istream_of ''2 7 4 42 0 4 5 '')) = Returns [None, None]"
proof -
  have c: "stream_extract parse_size (istream_of ''2 7 4 42 0 4 5 '') =
     (Some 2, \<lparr>buf = '' 7 4 42 0 4 5 '', failbit = False\<rparr>)"
    by (simp add: stream_eval)
  have d: "decode_results (\<lambda>b. (0, False, b)) (unat (2 :: 64 word)) \<lparr>buf = '' 7 4 42 0 4 5 '', failbit = False\<rparr> =
     [Returns None, Returns None]"
    by (simp add: stream_eval)
  then have i: "Indeterminate \<notin> set (decode_results (\<lambda>b. (0, False, b)) (unat (2 :: 64 word))
      \<lparr>buf = '' 7 4 42 0 4 5 '', failbit = False\<rparr>)"
    by simp
  from Tuple_deserialize_collects [OF c, of "\<lambda>b. (0, False, b)", THEN conjunct2, THEN conjunct1,
      rule_format, OF i] c d
  show ?thesis by simp
qed

section \<open>The slot directory in the page buffer\<close>

subsection \<open>Sixteen-bit members in the byte buffer\<close>

lemma split16: "(of_nat (unat (ucast v :: byte) + 256 * unat (ucast (drop_bit 8 v) :: byte)) :: 16 word) = v"
  for v :: "16 word"
proof -
  have lo: "unat (ucast v :: byte) = unat v mod 256"
    by (simp add: unsigned_ucast_eq take_bit_eq_mod)
  have "unat (drop_bit 8 v) = unat v div 256"
    by (simp only: unat_drop_bit_eq) (simp add: drop_bit_eq_div)
  moreover have "unat v < 65536" using unsigned_less [of v, where 'a = nat] by simp
  ultimately have hi: "unat (ucast (drop_bit 8 v) :: byte) = unat v div 256"
    by (simp add: unsigned_ucast_eq take_bit_eq_mod)
  show ?thesis by (simp add: lo hi)
qed

lemma length_store16 [simp]: "length (store16 pd a v) = length pd"
  by (simp add: store16_def)

lemma load16_store16_same: "a + 1 < length pd \<Longrightarrow> load16 (store16 pd a v) a = v"
  using split16 [of v] by (simp add: load16_def store16_def)

lemma nth_store16_other: "k \<noteq> a \<Longrightarrow> k \<noteq> a + 1 \<Longrightarrow> store16 pd a v ! k = pd ! k"
  by (simp add: store16_def)

lemma load16_store16_other:
  "b + 1 < a \<or> a + 1 < b \<Longrightarrow> load16 (store16 pd a v) b = load16 pd b"
  by (auto simp: load16_def nth_store16_other)

lemma load16_update_other:
  "k \<noteq> b \<Longrightarrow> k \<noteq> b + 1 \<Longrightarrow> load16 (pd[k := x]) b = load16 pd b"
  by (simp add: load16_def)

subsection \<open>Members of the slot array\<close>

lemma length_set_empty [simp]: "length (set_empty pd i b) = length pd"
  by (simp add: set_empty_def)

lemma length_set_offset [simp]: "length (set_offset pd i v) = length pd"
  by (simp add: set_offset_def)

lemma length_set_length [simp]: "length (set_length pd i v) = length pd"
  by (simp add: set_length_def)

lemma slot_in_page: "i < MAX_SLOTS \<Longrightarrow> length pd = PAGE_SIZE \<Longrightarrow> i * SLOT_SIZE + 5 < length pd"
  by (simp add: MAX_SLOTS_def PAGE_SIZE_def SLOT_SIZE_def)

lemma get_empty_set_empty:
  "j < MAX_SLOTS \<Longrightarrow> length pd = PAGE_SIZE \<Longrightarrow>
     get_empty (set_empty pd j b) i = (if i = j then b else get_empty pd i)"
  using slot_in_page [of j pd]
  by (auto simp: get_empty_def set_empty_def SLOT_SIZE_def nth_list_update)

lemma get_empty_set_offset [simp]: "get_empty (set_offset pd j v) i = get_empty pd i"
proof -
  have "i * 6 \<noteq> j * 6 + 2" "i * 6 \<noteq> j * 6 + 3" by presburger+
  then show ?thesis
    by (simp add: get_empty_def set_offset_def SLOT_SIZE_def nth_store16_other)
qed

lemma get_empty_set_length [simp]: "get_empty (set_length pd j v) i = get_empty pd i"
proof -
  have "i * 6 \<noteq> j * 6 + 4" "i * 6 \<noteq> j * 6 + 5" by presburger+
  then show ?thesis
    by (simp add: get_empty_def set_length_def SLOT_SIZE_def nth_store16_other)
qed

lemma get_offset_set_empty [simp]: "get_offset (set_empty pd j b) i = get_offset pd i"
proof -
  have "j * 6 \<noteq> i * 6 + 2" "j * 6 \<noteq> i * 6 + 3" by presburger+
  then show ?thesis
    by (simp add: get_offset_def set_empty_def SLOT_SIZE_def load16_def)
qed

lemma get_length_set_empty [simp]: "get_length (set_empty pd j b) i = get_length pd i"
proof -
  have "j * 6 \<noteq> i * 6 + 4" "j * 6 \<noteq> i * 6 + 5" by presburger+
  then show ?thesis
    by (simp add: get_length_def set_empty_def SLOT_SIZE_def load16_def)
qed

lemma get_offset_set_offset:
  "j < MAX_SLOTS \<Longrightarrow> length pd = PAGE_SIZE \<Longrightarrow>
     get_offset (set_offset pd j v) i = (if i = j then v else get_offset pd i)"
proof (cases "i = j")
  case True
  assume "j < MAX_SLOTS" "length pd = PAGE_SIZE"
  from slot_in_page [OF this] True show ?thesis
    by (simp add: get_offset_def set_offset_def load16_store16_same)
next
  case False
  then have "i * 6 + 2 + 1 < j * 6 + 2 \<or> j * 6 + 2 + 1 < i * 6 + 2" by presburger
  with False show ?thesis
    by (simp add: get_offset_def set_offset_def SLOT_SIZE_def load16_store16_other)
qed

lemma get_length_set_length:
  "j < MAX_SLOTS \<Longrightarrow> length pd = PAGE_SIZE \<Longrightarrow>
     get_length (set_length pd j v) i = (if i = j then v else get_length pd i)"
proof (cases "i = j")
  case True
  assume "j < MAX_SLOTS" "length pd = PAGE_SIZE"
  from slot_in_page [OF this] True show ?thesis
    by (simp add: get_length_def set_length_def load16_store16_same)
next
  case False
  then have "i * 6 + 4 + 1 < j * 6 + 4 \<or> j * 6 + 4 + 1 < i * 6 + 4" by presburger
  with False show ?thesis
    by (simp add: get_length_def set_length_def SLOT_SIZE_def load16_store16_other)
qed

lemma get_offset_set_length [simp]: "get_offset (set_length pd j v) i = get_offset pd i"
proof -
  have "i * 6 + 2 + 1 < j * 6 + 4 \<or> j * 6 + 4 + 1 < i * 6 + 2" by presburger
  then show ?thesis
    by (simp add: get_offset_def set_length_def SLOT_SIZE_def load16_store16_other)
qed

lemma get_length_set_offset [simp]: "get_length (set_offset pd j v) i = get_length pd i"
proof -
  have "i * 6 + 4 + 1 < j * 6 + 2 \<or> j * 6 + 2 + 1 < i * 6 + 4" by presburger
  then show ?thesis
    by (simp add: get_length_def set_offset_def SLOT_SIZE_def load16_store16_other)
qed

subsection \<open>The page made by the constructor\<close>

lemma length_init_slot [simp]: "length (init_slot i pd) = length pd"
  by (simp add: init_slot_def)

lemma length_fold_init_slot [simp]: "length (fold init_slot [0..<n] pd) = length pd"
  by (induction n) simp_all

lemma length_SlottedPage_new [simp]: "length SlottedPage_new = PAGE_SIZE"
  by (simp add: SlottedPage_new_def)

lemma slot_at_init_slot:
  assumes "j < MAX_SLOTS" "length pd = PAGE_SIZE"
  shows "slot_at (init_slot j pd) i = (if i = j then never_used else slot_at pd i)"
  using assms
  by (simp add: slot_at_def init_slot_def never_used_def get_length_set_length
      get_offset_set_offset get_empty_set_empty)

lemma slot_at_fold_init_slot:
  assumes "n \<le> MAX_SLOTS" "length pd = PAGE_SIZE"
  shows "slot_at (fold init_slot [0..<n] pd) i = (if i < n then never_used else slot_at pd i)"
  using assms
proof (induction n)
  case 0
  then show ?case by simp
next
  case (Suc n)
  then have "slot_at (fold init_slot [0..<n] pd) i = (if i < n then never_used else slot_at pd i)"
    by simp
  moreover from Suc.prems have "n < MAX_SLOTS" by simp
  ultimately show ?case
    using Suc.prems by (auto simp: slot_at_init_slot)
qed

lemma slot_at_SlottedPage_new: "i < MAX_SLOTS \<Longrightarrow> slot_at SlottedPage_new i = never_used"
  by (simp add: SlottedPage_new_def slot_at_fold_init_slot)

lemma get_SlottedPage_new:
  assumes "i < MAX_SLOTS"
  shows "get_empty SlottedPage_new i" "get_offset SlottedPage_new i = INVALID_VALUE"
    "get_length SlottedPage_new i = INVALID_VALUE"
  using slot_at_SlottedPage_new [OF assms]
  by (simp_all add: slot_at_def never_used_def)

lemma nth_init_slot_beyond: "metadata_size \<le> k \<Longrightarrow> j < MAX_SLOTS \<Longrightarrow> init_slot j pd ! k = pd ! k"
  by (simp add: init_slot_def set_length_def set_offset_def set_empty_def nth_store16_other
      metadata_size_def SLOT_SIZE_def MAX_SLOTS_def)

lemma nth_fold_init_slot_beyond:
  "metadata_size \<le> k \<Longrightarrow> n \<le> MAX_SLOTS \<Longrightarrow> fold init_slot [0..<n] pd ! k = pd ! k"
  by (induction n) (simp_all add: nth_init_slot_beyond)

lemma SlottedPage_new_tuple_area:
  "metadata_size \<le> k \<Longrightarrow> k < PAGE_SIZE \<Longrightarrow> SlottedPage_new ! k = 0"
  by (simp add: SlottedPage_new_def nth_fold_init_slot_beyond)

lemma SlottedPage_new_not_zero: "SlottedPage_new \<noteq> replicate PAGE_SIZE 0"
proof
  assume z: "SlottedPage_new = replicate PAGE_SIZE 0"
  have "get_empty SlottedPage_new 0" by (rule get_SlottedPage_new) (simp add: MAX_SLOTS_def)
  then have "get_empty (replicate PAGE_SIZE 0) 0" by (simp only: z)
  then show False by (simp add: get_empty_def PAGE_SIZE_def)
qed

subsection \<open>A page of zero bytes\<close>

lemma slot_at_zero_page:
  assumes "i < MAX_SLOTS"
  shows "slot_at (replicate PAGE_SIZE 0) i = \<lparr>empty_f = False, offset = 0, length_f = 0\<rparr>"
proof -
  from assms have "i * 6 + 5 < PAGE_SIZE" by (simp add: MAX_SLOTS_def PAGE_SIZE_def)
  then show ?thesis
    by (simp add: slot_at_def get_empty_def get_offset_def get_length_def load16_def SLOT_SIZE_def)
qed

subsection \<open>Counting\<close>

lemma count_from_all_occupied:
  "\<forall>j < MAX_SLOTS. \<not> get_empty pd j \<Longrightarrow> i \<le> MAX_SLOTS \<Longrightarrow>
     count_from pd i c = c + (MAX_SLOTS - i)"
proof (induction pd i c rule: count_from.induct)
  case (1 pd i count)
  show ?case
  proof (cases "i < MAX_SLOTS")
    case True
    with 1 have "\<not> get_empty pd i"
      and "count_from pd (i + 1) (count + 1) = count + 1 + (MAX_SLOTS - (i + 1))"
      by simp_all
    with True show ?thesis by (subst count_from.simps) simp
  next
    case False
    with 1 show ?thesis by (subst count_from.simps) simp
  qed
qed

lemma count_from_all_empty:
  "\<forall>j < MAX_SLOTS. get_empty pd j \<Longrightarrow> count_from pd i c = c"
proof (induction pd i c rule: count_from.induct)
  case (1 pd i count)
  show ?case
  proof (cases "i < MAX_SLOTS")
    case True
    with 1 have "get_empty pd i" and "count_from pd (i + 1) count = count"
      by simp_all
    with True show ?thesis by (subst count_from.simps) simp
  next
    case False
    then show ?thesis by (subst count_from.simps) simp
  qed
qed

lemma countTuples_zero_page: "countTuples (replicate PAGE_SIZE 0) = 512"
proof -
  have "\<forall>j < MAX_SLOTS. \<not> get_empty (replicate PAGE_SIZE 0) j"
    using slot_at_zero_page by (simp add: slot_at_def)
  from count_from_all_occupied [OF this, of 0 0] show ?thesis
    by (simp add: countTuples_def MAX_SLOTS_def)
qed

lemma countTuples_SlottedPage_new: "countTuples SlottedPage_new = 0"
  using count_from_all_empty [of SlottedPage_new 0 0] get_SlottedPage_new(1)
  by (simp add: countTuples_def)

section \<open>Extending and loading\<close>

subsection \<open>Extending the file\<close>

lemma unat_PageID_bound: "unat (p :: PageID) < 65536"
  using unsigned_less [of p, where 'a = nat] by simp

lemma unat_ucast_PageID: "unat (ucast (p :: PageID) :: 64 word) = unat p"
proof -
  have "unat p < 2 ^ 64" using unat_PageID_bound [of p] by simp
  then show ?thesis by (simp add: unsigned_ucast_eq take_bit_nat_eq_self)
qed

lemma extend_till_arith:
  fixes p :: PageID and n :: "64 word"
  assumes "n \<le> ucast p"
  shows "unat (ucast p + 1 - n :: 64 word) = unat p + 1 - unat n"
    and "unat ((ucast p + 1 - n) * of_nat PAGE_SIZE :: 64 word) = (unat p + 1 - unat n) * PAGE_SIZE"
    and "unat (ucast p + 1 :: 64 word) = unat p + 1"
    and "unat n \<le> unat p"
proof -
  let ?q = "ucast p :: 64 word"
  have q: "unat ?q = unat p" by (rule unat_ucast_PageID)
  have b: "unat p < 65536" by (rule unat_PageID_bound)
  show s: "unat (?q + 1) = unat p + 1"
    using q b by (simp add: unat_word_ariths)
  from assms show le: "unat n \<le> unat p"
    using q by (simp add: word_le_nat_alt)
  have "n \<le> ?q + 1"
    using le s by (simp add: word_le_nat_alt)
  then show d: "unat (?q + 1 - n) = unat p + 1 - unat n"
    using s by (simp add: unat_sub)
  have ps: "unat (of_nat PAGE_SIZE :: 64 word) = PAGE_SIZE"
    by (simp add: PAGE_SIZE_def)
  have "unat (?q + 1 - n) * unat (of_nat PAGE_SIZE :: 64 word) < 2 ^ LENGTH(64)"
    using b unfolding d ps by (simp add: PAGE_SIZE_def)
  then have "unat ((?q + 1 - n) * of_nat PAGE_SIZE) = unat (?q + 1 - n) * unat (of_nat PAGE_SIZE :: 64 word)"
    by (simp only: unat_mult_lem)
  then show "unat ((?q + 1 - n) * of_nat PAGE_SIZE) = (unat p + 1 - unat n) * PAGE_SIZE"
    by (simp only: d ps)
qed

lemma extend_till_PageID:
  fixes p :: PageID
  assumes "num_pages sm \<le> ucast p"
  shows "extend_till sm (ucast p) =
      sm\<lparr>fileStream := fileStream sm @ replicate ((unat p + 1 - unat (num_pages sm)) * PAGE_SIZE) 0,
          num_pages := ucast p + 1\<rparr>"
  using assms extend_till_arith(2) [OF assms]
  by (simp add: extend_till_def Let_def not_less [symmetric])

lemma extend_till_enough: "till < num_pages sm \<Longrightarrow> extend_till sm till = sm"
  by (simp add: extend_till_def)

lemma take_drop_replicate:
  "(j + 1) * m \<le> n \<Longrightarrow> take m (drop (j * m) (replicate n x)) = replicate m x"
  by simp

lemma load_zero_page:
  fixes p k :: PageID
  assumes w: "whole_pages sm" and n: "num_pages sm \<le> ucast k" and k: "k \<le> p"
  shows "load (extend_till sm (ucast p)) k = Inr (replicate PAGE_SIZE 0)"
proof -
  from n k have np: "num_pages sm \<le> ucast p"
    by (simp add: word_le_nat_alt unat_ucast_PageID)
  let ?n = "unat (num_pages sm)"
  have kp: "unat k \<le> unat p" using k by (simp add: word_le_nat_alt)
  have nk: "?n \<le> unat k" by (rule extend_till_arith(4) [OF n])
  have len: "length (fileStream sm) = ?n * PAGE_SIZE" using w by (simp add: whole_pages_def)
  have inr: "\<not> num_pages (extend_till sm (ucast p)) \<le> ucast k"
    using extend_till_arith(3) [OF np] kp
    by (simp add: extend_till_PageID [OF np] word_le_nat_alt unat_ucast_PageID)
  have pos: "unat k * PAGE_SIZE = ?n * PAGE_SIZE + (unat k - ?n) * PAGE_SIZE"
    using nk by (simp add: algebra_simps flip: add_mult_distrib)
  have fit: "(unat k - ?n + 1) * PAGE_SIZE \<le> (unat p + 1 - ?n) * PAGE_SIZE"
    using nk kp by (intro mult_le_mono1) simp
  have "(unat k + 1) * PAGE_SIZE \<le> (?n + (unat p + 1 - ?n)) * PAGE_SIZE"
    using nk kp by (intro mult_le_mono1) simp
  then have enough: "unat k * PAGE_SIZE + PAGE_SIZE \<le> ?n * PAGE_SIZE + (unat p + 1 - ?n) * PAGE_SIZE"
    by (simp add: add_mult_distrib)
  have "take PAGE_SIZE (drop (unat k * PAGE_SIZE)
          (fileStream sm @ replicate ((unat p + 1 - ?n) * PAGE_SIZE) 0)) = replicate PAGE_SIZE 0"
    using take_drop_replicate [OF fit, of "0 :: byte"]
    by (simp add: pos len)
  with inr enough show ?thesis
    by (simp add: load_def Let_def extend_till_PageID [OF np] len)
qed

lemma load_extended_page:
  assumes w: "whole_pages sm" and n: "unat (num_pages sm) < 65536"
  shows "load (StorageManager_extend sm) (ucast (num_pages sm)) = Inr SlottedPage_new"
proof -
  let ?n = "unat (num_pages sm)"
  have len: "length (fileStream sm) = ?n * PAGE_SIZE" using w by (simp add: whole_pages_def)
  have u: "unat (ucast (num_pages sm) :: PageID) = ?n"
    using n by (simp add: unsigned_ucast_eq take_bit_nat_eq_self)
  have s: "unat (num_pages sm + 1) = ?n + 1"
    using n by (simp add: unat_word_ariths)
  have "\<not> num_pages sm + 1 \<le> ucast (ucast (num_pages sm) :: PageID)"
    using s u by (simp add: word_le_nat_alt unat_ucast_PageID)
  then show ?thesis
    by (simp add: load_def StorageManager_extend_def Let_def u len)
qed

text \<open>
  The page that \<^verbatim>\<open>extend()\<close> appends to an empty file is not a page of zero bytes: its
  first byte is the \<^verbatim>\<open>empty\<close> flag of slot 0, which the constructor has set.
\<close>

theorem extend_page_not_zero_counterexample:
  "fileStream (StorageManager_extend \<lparr>fileStream = [], num_pages = 0\<rparr>) \<noteq> replicate PAGE_SIZE 0 \<and>
   length (fileStream (StorageManager_extend \<lparr>fileStream = [], num_pages = 0\<rparr>)) = PAGE_SIZE \<and>
   fileStream (StorageManager_extend \<lparr>fileStream = [], num_pages = 0\<rparr>) ! 0 \<noteq> 0"
proof -
  have "get_empty SlottedPage_new 0"
    by (rule get_SlottedPage_new) (simp add: MAX_SLOTS_def)
  then have "SlottedPage_new ! 0 \<noteq> 0" by (simp add: get_empty_def)
  then show ?thesis
    by (simp add: StorageManager_extend_def SlottedPage_new_not_zero)
qed

text \<open>
  C6, as the code has it. \<^verbatim>\<open>extend()\<close> appends exactly one page, the image of a freshly
  constructed \<^verbatim>\<open>SlottedPage\<close> (all 512 slots empty with \<^verbatim>\<open>INVALID_VALUE\<close> in offset and
  length, the tuple area zero), and increments \<^verbatim>\<open>num_pages\<close> by one.
  \<^verbatim>\<open>extend(page_id)\<close>, for a page id at or beyond \<^verbatim>\<open>num_pages\<close>, appends pages of zero
  bytes until \<^verbatim>\<open>num_pages = page_id + 1\<close>, and leaves the file unchanged otherwise.
\<close>

theorem extend_appends:
  fixes page_id :: PageID
  shows "fileStream (StorageManager_extend sm) = fileStream sm @ SlottedPage_new \<and>
    num_pages (StorageManager_extend sm) = num_pages sm + 1 \<and>
    length SlottedPage_new = PAGE_SIZE \<and>
    (\<forall>i < MAX_SLOTS. slot_at SlottedPage_new i = never_used) \<and>
    (\<forall>k. metadata_size \<le> k \<and> k < PAGE_SIZE \<longrightarrow> SlottedPage_new ! k = 0) \<and>
    (num_pages sm \<le> ucast page_id \<longrightarrow>
       fileStream (extend_till sm (ucast page_id)) =
         fileStream sm @ replicate ((unat page_id + 1 - unat (num_pages sm)) * PAGE_SIZE) 0 \<and>
       num_pages (extend_till sm (ucast page_id)) = ucast page_id + 1 \<and>
       unat (num_pages (extend_till sm (ucast page_id))) = unat page_id + 1) \<and>
    (ucast page_id < num_pages sm \<longrightarrow> extend_till sm (ucast page_id) = sm)"
proof (intro conjI allI impI)
  show "fileStream (StorageManager_extend sm) = fileStream sm @ SlottedPage_new"
    and "num_pages (StorageManager_extend sm) = num_pages sm + 1"
    by (simp_all add: StorageManager_extend_def)
  show "length SlottedPage_new = PAGE_SIZE" by simp
next
  fix i assume "i < MAX_SLOTS"
  then show "slot_at SlottedPage_new i = never_used" by (rule slot_at_SlottedPage_new)
next
  fix k assume "metadata_size \<le> k \<and> k < PAGE_SIZE"
  then show "SlottedPage_new ! k = 0" by (simp add: SlottedPage_new_tuple_area)
next
  assume n: "num_pages sm \<le> ucast page_id"
  show "fileStream (extend_till sm (ucast page_id)) =
         fileStream sm @ replicate ((unat page_id + 1 - unat (num_pages sm)) * PAGE_SIZE) 0"
    and "num_pages (extend_till sm (ucast page_id)) = ucast page_id + 1"
    by (simp_all add: extend_till_PageID [OF n])
  show "unat (num_pages (extend_till sm (ucast page_id))) = unat page_id + 1"
    using extend_till_arith(3) [OF n] by (simp add: extend_till_PageID [OF n])
next
  assume "ucast page_id < num_pages sm"
  then show "extend_till sm (ucast page_id) = sm" by (rule extend_till_enough)
qed

text \<open>Extending an empty file to page 2, and a file of five pages to page 2.\<close>

theorem extend_appends_witness:
  "slot_at SlottedPage_new 5 = never_used \<and>
   SlottedPage_new ! 4000 = 0 \<and>
   fileStream (extend_till \<lparr>fileStream = [], num_pages = 0\<rparr> (ucast (2 :: PageID))) =
     replicate (3 * PAGE_SIZE) 0 \<and>
   num_pages (extend_till \<lparr>fileStream = [], num_pages = 0\<rparr> (ucast (2 :: PageID))) = 3 \<and>
   extend_till \<lparr>fileStream = replicate (5 * PAGE_SIZE) 0, num_pages = 5\<rparr> (ucast (2 :: PageID)) =
     \<lparr>fileStream = replicate (5 * PAGE_SIZE) 0, num_pages = 5\<rparr>"
proof -
  have a: "(5 :: nat) < MAX_SLOTS" by (simp add: MAX_SLOTS_def)
  have b: "metadata_size \<le> (4000 :: nat) \<and> (4000 :: nat) < PAGE_SIZE"
    by (simp add: metadata_size_def SLOT_SIZE_def MAX_SLOTS_def PAGE_SIZE_def)
  have c: "num_pages \<lparr>fileStream = [], num_pages = 0\<rparr> \<le> ucast (2 :: PageID)" by simp
  have d: "ucast (2 :: PageID) < num_pages \<lparr>fileStream = replicate (5 * PAGE_SIZE) (0 :: byte), num_pages = 5\<rparr>"
    by simp
  note t = extend_appends [of "\<lparr>fileStream = [], num_pages = 0\<rparr>" 2]
  from t [THEN conjunct2, THEN conjunct2, THEN conjunct2, THEN conjunct1, rule_format, OF a]
    t [THEN conjunct2, THEN conjunct2, THEN conjunct2, THEN conjunct2, THEN conjunct1, rule_format, OF b]
    t [THEN conjunct2, THEN conjunct2, THEN conjunct2, THEN conjunct2, THEN conjunct2, THEN conjunct1,
       rule_format, OF c]
    extend_appends [of "\<lparr>fileStream = replicate (5 * PAGE_SIZE) 0, num_pages = 5\<rparr>" 2,
       THEN conjunct2, THEN conjunct2, THEN conjunct2, THEN conjunct2, THEN conjunct2, THEN conjunct2,
       rule_format, OF d]
  show ?thesis by simp
qed

text \<open>
  C10. In a file of whole pages, every page that \<^verbatim>\<open>extend(page_id)\<close> appends loads as a
  page of zero bytes; in such a page each of the 512 slots reads as occupied (flag
  false) with offset 0 and length 0, and \<^verbatim>\<open>countTuples\<close> is 512. The page that
  \<^verbatim>\<open>extend()\<close> appends loads as the constructor's page, whose 512 slots all read as empty
  and whose \<^verbatim>\<open>countTuples\<close> is 0.
\<close>

theorem zero_page_reads_occupied:
  fixes page_id k :: PageID
  assumes "whole_pages sm" and "num_pages sm \<le> ucast k" and "k \<le> page_id"
  shows "load (extend_till sm (ucast page_id)) k = Inr (replicate PAGE_SIZE 0) \<and>
    (\<forall>i < MAX_SLOTS. slot_at (replicate PAGE_SIZE 0) i = \<lparr>empty_f = False, offset = 0, length_f = 0\<rparr>) \<and>
    countTuples (replicate PAGE_SIZE 0) = 512 \<and>
    (unat (num_pages sm) < 65536 \<longrightarrow>
       load (StorageManager_extend sm) (ucast (num_pages sm)) = Inr SlottedPage_new) \<and>
    (\<forall>i < MAX_SLOTS. empty_f (slot_at SlottedPage_new i)) \<and>
    countTuples SlottedPage_new = 0"
proof (intro conjI allI impI)
  show "load (extend_till sm (ucast page_id)) k = Inr (replicate PAGE_SIZE 0)"
    by (rule load_zero_page [OF assms])
  show "countTuples (replicate PAGE_SIZE 0) = 512" by (rule countTuples_zero_page)
  show "countTuples SlottedPage_new = 0" by (rule countTuples_SlottedPage_new)
next
  fix i assume "i < MAX_SLOTS"
  then show "slot_at (replicate PAGE_SIZE 0) i = \<lparr>empty_f = False, offset = 0, length_f = 0\<rparr>"
    by (rule slot_at_zero_page)
next
  assume "unat (num_pages sm) < 65536"
  with assms(1) show "load (StorageManager_extend sm) (ucast (num_pages sm)) = Inr SlottedPage_new"
    by (rule load_extended_page)
next
  fix i assume "i < MAX_SLOTS"
  then show "empty_f (slot_at SlottedPage_new i)"
    by (simp add: slot_at_SlottedPage_new never_used_def)
qed

text \<open>A file of one page extended to page 3, read at page 2; and extended by one page.\<close>

theorem zero_page_reads_occupied_witness:
  "whole_pages \<lparr>fileStream = SlottedPage_new, num_pages = 1\<rparr> \<and>
   load (extend_till \<lparr>fileStream = SlottedPage_new, num_pages = 1\<rparr> (ucast (3 :: PageID))) 2 =
     Inr (replicate PAGE_SIZE 0) \<and>
   slot_at (replicate PAGE_SIZE 0) 7 = \<lparr>empty_f = False, offset = 0, length_f = 0\<rparr> \<and>
   load (StorageManager_extend \<lparr>fileStream = SlottedPage_new, num_pages = 1\<rparr>) 1 = Inr SlottedPage_new \<and>
   empty_f (slot_at SlottedPage_new 7)"
proof -
  let ?sm = "\<lparr>fileStream = SlottedPage_new, num_pages = 1\<rparr>"
  have w: "whole_pages ?sm" by (simp add: whole_pages_def)
  have n: "num_pages ?sm \<le> ucast (2 :: PageID)" by simp
  have k: "(2 :: PageID) \<le> 3" by simp
  have i: "(7 :: nat) < MAX_SLOTS" by (simp add: MAX_SLOTS_def)
  have s: "unat (num_pages ?sm) < 65536" by simp
  note t = zero_page_reads_occupied [OF w n k]
  from w t [THEN conjunct1]
    t [THEN conjunct2, THEN conjunct1, rule_format, OF i]
    t [THEN conjunct2, THEN conjunct2, THEN conjunct2, THEN conjunct1, rule_format, OF s]
    t [THEN conjunct2, THEN conjunct2, THEN conjunct2, THEN conjunct2, THEN conjunct1, rule_format, OF i]
  show ?thesis by simp
qed

section \<open>Inserting into a slotted page\<close>

subsection \<open>Slot views after an assignment\<close>

lemma slot_at_set_empty:
  "j < MAX_SLOTS \<Longrightarrow> length pd = PAGE_SIZE \<Longrightarrow>
     slot_at (set_empty pd j b) i = (if i = j then (slot_at pd i)\<lparr>empty_f := b\<rparr> else slot_at pd i)"
  by (simp add: slot_at_def get_empty_set_empty)

lemma slot_at_set_offset:
  "j < MAX_SLOTS \<Longrightarrow> length pd = PAGE_SIZE \<Longrightarrow>
     slot_at (set_offset pd j v) i = (if i = j then (slot_at pd i)\<lparr>offset := v\<rparr> else slot_at pd i)"
  by (simp add: slot_at_def get_offset_set_offset)

lemma slot_at_set_length:
  "j < MAX_SLOTS \<Longrightarrow> length pd = PAGE_SIZE \<Longrightarrow>
     slot_at (set_length pd j v) i = (if i = j then (slot_at pd i)\<lparr>length_f := v\<rparr> else slot_at pd i)"
  by (simp add: slot_at_def get_length_set_length)

lemma length_memcpy:
  "off + length src \<le> length pd \<Longrightarrow> length (memcpy pd off src) = length pd"
  by (simp add: memcpy_def)

lemma nth_memcpy_below: "i < off \<Longrightarrow> off \<le> length pd \<Longrightarrow> memcpy pd off src ! i = pd ! i"
  by (simp add: memcpy_def nth_append)

lemma slot_at_memcpy:
  assumes "i < MAX_SLOTS" "metadata_size \<le> off" "off \<le> length pd"
  shows "slot_at (memcpy pd off src) i = slot_at pd i"
proof -
  from assms(1,2) have "i * SLOT_SIZE + 5 < off"
    by (simp add: metadata_size_def SLOT_SIZE_def MAX_SLOTS_def)
  then have "i * SLOT_SIZE < off" "i * SLOT_SIZE + 2 < off" "i * SLOT_SIZE + 3 < off"
    "i * SLOT_SIZE + 4 < off" "i * SLOT_SIZE + 5 < off"
    by simp_all
  then show ?thesis
    using assms(3)
    by (simp add: slot_at_def get_empty_def get_offset_def get_length_def load16_def
        nth_memcpy_below add.assoc)
qed

lemma read_memcpy:
  "off \<le> length pd \<Longrightarrow> take (length src) (drop off (memcpy pd off src)) = src"
  by (simp add: memcpy_def)

lemma drop_set_empty:
  "j < MAX_SLOTS \<Longrightarrow> drop metadata_size (set_empty pd j b) = drop metadata_size pd"
  by (simp add: set_empty_def metadata_size_def SLOT_SIZE_def MAX_SLOTS_def drop_update_cancel)

lemma drop_store16: "a + 1 < m \<Longrightarrow> drop m (store16 pd a v) = drop m pd"
  by (simp add: store16_def drop_update_cancel)

lemma drop_set_offset:
  "j < MAX_SLOTS \<Longrightarrow> drop metadata_size (set_offset pd j v) = drop metadata_size pd"
  by (simp add: set_offset_def metadata_size_def SLOT_SIZE_def MAX_SLOTS_def drop_store16)

subsection \<open>The two search loops\<close>

lemma find_reusable_spec:
  "slot_itr \<le> MAX_SLOTS \<Longrightarrow>
     slot_itr \<le> find_reusable pd tuple_size slot_itr \<and>
     find_reusable pd tuple_size slot_itr \<le> MAX_SLOTS \<and>
     (\<forall>j. slot_itr \<le> j \<and> j < find_reusable pd tuple_size slot_itr \<longrightarrow> \<not> reusable pd tuple_size j) \<and>
     (find_reusable pd tuple_size slot_itr < MAX_SLOTS \<longrightarrow>
        reusable pd tuple_size (find_reusable pd tuple_size slot_itr))"
proof (induction pd tuple_size slot_itr rule: find_reusable.induct)
  case (1 pd tuple_size slot_itr)
  show ?case
  proof (cases "slot_itr < MAX_SLOTS")
    case False
    with 1 have "slot_itr = MAX_SLOTS" by simp
    moreover from False have "find_reusable pd tuple_size slot_itr = MAX_SLOTS"
      by (subst find_reusable.simps) simp
    ultimately show ?thesis by auto
  next
    case True
    show ?thesis
    proof (cases "get_empty pd slot_itr \<and> unat (get_length pd slot_itr) \<ge> tuple_size")
      case r: True
      with True have "find_reusable pd tuple_size slot_itr = slot_itr"
        by (subst find_reusable.simps) simp
      with r True show ?thesis by (auto simp: reusable_def slot_at_def)
    next
      case r: False
      with True have e: "find_reusable pd tuple_size slot_itr = find_reusable pd tuple_size (slot_itr + 1)"
        by (subst find_reusable.simps) auto
      from r have nr: "\<not> reusable pd tuple_size slot_itr" by (simp add: reusable_def slot_at_def)
      from "1.IH" [OF True r] True
      have ih: "slot_itr + 1 \<le> find_reusable pd tuple_size (slot_itr + 1)"
        "find_reusable pd tuple_size (slot_itr + 1) \<le> MAX_SLOTS"
        "\<forall>j. slot_itr + 1 \<le> j \<and> j < find_reusable pd tuple_size (slot_itr + 1) \<longrightarrow> \<not> reusable pd tuple_size j"
        "find_reusable pd tuple_size (slot_itr + 1) < MAX_SLOTS \<longrightarrow>
           reusable pd tuple_size (find_reusable pd tuple_size (slot_itr + 1))"
        by simp_all
      have "\<forall>j. slot_itr \<le> j \<and> j < find_reusable pd tuple_size (slot_itr + 1) \<longrightarrow> \<not> reusable pd tuple_size j"
      proof (intro allI impI)
        fix j assume j: "slot_itr \<le> j \<and> j < find_reusable pd tuple_size (slot_itr + 1)"
        show "\<not> reusable pd tuple_size j"
        proof (cases "j = slot_itr")
          case True
          with nr show ?thesis by simp
        next
          case False
          with j ih(3) show ?thesis by simp
        qed
      qed
      with ih show ?thesis unfolding e by simp
    qed
  qed
qed

lemma find_unused_spec:
  "slot_itr \<le> MAX_SLOTS \<Longrightarrow>
     slot_itr \<le> find_unused pd slot_itr \<and>
     find_unused pd slot_itr \<le> MAX_SLOTS \<and>
     (\<forall>j. slot_itr \<le> j \<and> j < find_unused pd slot_itr \<longrightarrow> \<not> unused pd j) \<and>
     (find_unused pd slot_itr < MAX_SLOTS \<longrightarrow> unused pd (find_unused pd slot_itr))"
proof (induction pd slot_itr rule: find_unused.induct)
  case (1 pd slot_itr)
  show ?case
  proof (cases "slot_itr < MAX_SLOTS")
    case False
    with 1 have "slot_itr = MAX_SLOTS" by simp
    moreover from False have "find_unused pd slot_itr = MAX_SLOTS"
      by (subst find_unused.simps) simp
    ultimately show ?thesis by auto
  next
    case True
    show ?thesis
    proof (cases "get_empty pd slot_itr \<and> get_offset pd slot_itr = INVALID_VALUE")
      case r: True
      with True have "find_unused pd slot_itr = slot_itr"
        by (subst find_unused.simps) simp
      with r True show ?thesis by (auto simp: unused_def slot_at_def)
    next
      case r: False
      with True have e: "find_unused pd slot_itr = find_unused pd (slot_itr + 1)"
        by (subst find_unused.simps) auto
      from r have nr: "\<not> unused pd slot_itr" by (simp add: unused_def slot_at_def)
      from "1.IH" [OF True r] True
      have ih: "slot_itr + 1 \<le> find_unused pd (slot_itr + 1)"
        "find_unused pd (slot_itr + 1) \<le> MAX_SLOTS"
        "\<forall>j. slot_itr + 1 \<le> j \<and> j < find_unused pd (slot_itr + 1) \<longrightarrow> \<not> unused pd j"
        "find_unused pd (slot_itr + 1) < MAX_SLOTS \<longrightarrow> unused pd (find_unused pd (slot_itr + 1))"
        by simp_all
      have "\<forall>j. slot_itr \<le> j \<and> j < find_unused pd (slot_itr + 1) \<longrightarrow> \<not> unused pd j"
      proof (intro allI impI)
        fix j assume j: "slot_itr \<le> j \<and> j < find_unused pd (slot_itr + 1)"
        show "\<not> unused pd j"
        proof (cases "j = slot_itr")
          case True
          with nr show ?thesis by simp
        next
          case False
          with j ih(3) show ?thesis by simp
        qed
      qed
      with ih show ?thesis unfolding e by simp
    qed
  qed
qed

lemma choose_slot_none: "no_slot pd tuple_size \<Longrightarrow> choose_slot pd tuple_size = MAX_SLOTS"
  using find_reusable_spec [of 0 pd tuple_size] find_unused_spec [of 0 pd]
  by (auto simp: choose_slot_def no_slot_def Let_def)

lemma choose_slot_chosen:
  assumes "chosen_slot pd tuple_size k"
  shows "choose_slot pd tuple_size = k"
proof -
  note r = find_reusable_spec [of 0 pd tuple_size, simplified]
  note u = find_unused_spec [of 0 pd, simplified]
  from assms have k: "k < MAX_SLOTS" by (simp add: chosen_slot_def)
  from assms consider
      (reuse) "reusable pd tuple_size k" "\<forall>j < k. \<not> reusable pd tuple_size j"
    | (fresh) "\<forall>j < MAX_SLOTS. \<not> reusable pd tuple_size j" "unused pd k" "\<forall>j < k. \<not> unused pd j"
    by (auto simp: chosen_slot_def)
  then show ?thesis
  proof cases
    case reuse
    have "\<not> k < find_reusable pd tuple_size 0" using r reuse(1) by blast
    moreover have "\<not> find_reusable pd tuple_size 0 < k" using r reuse(2) k by auto
    ultimately have "find_reusable pd tuple_size 0 = k" by simp
    with k show ?thesis by (simp add: choose_slot_def)
  next
    case fresh
    have "find_reusable pd tuple_size 0 = MAX_SLOTS" using r fresh(1) by (meson le_neq_implies_less)
    moreover have "\<not> k < find_unused pd 0" using u fresh(2) by blast
    moreover have "\<not> find_unused pd 0 < k" using u fresh(3) k by auto
    ultimately show ?thesis by (simp add: choose_slot_def)
  qed
qed

lemma first_index:
  fixes n :: nat
  assumes "\<exists>j < n. P j"
  shows "\<exists>k < n. P k \<and> (\<forall>j < k. \<not> P j)"
proof -
  from assms have "\<exists>k. (k < n \<and> P k)" by blast
  then obtain k where k: "k < n \<and> P k" "\<forall>m < k. \<not> (m < n \<and> P m)"
    unfolding exists_least_iff [of "\<lambda>k. k < n \<and> P k"] by blast
  then have "\<forall>j < k. \<not> P j" by (meson less_trans)
  with k(1) show ?thesis by blast
qed

lemma slot_cases: "no_slot pd tuple_size \<or> (\<exists>k. chosen_slot pd tuple_size k)"
proof (cases "\<exists>j < MAX_SLOTS. reusable pd tuple_size j")
  case True
  from first_index [OF True] obtain k where
    "k < MAX_SLOTS" "reusable pd tuple_size k" "\<forall>j < k. \<not> reusable pd tuple_size j" by blast
  then have "chosen_slot pd tuple_size k" by (simp add: chosen_slot_def)
  then show ?thesis by blast
next
  case nr: False
  show ?thesis
  proof (cases "\<exists>j < MAX_SLOTS. unused pd j")
    case True
    from first_index [OF True] obtain k where
      "k < MAX_SLOTS" "unused pd k" "\<forall>j < k. \<not> unused pd j" by blast
    with nr have "chosen_slot pd tuple_size k" by (simp add: chosen_slot_def)
    then show ?thesis by blast
  next
    case False
    with nr show ?thesis by (simp add: no_slot_def)
  qed
qed

subsection \<open>What \<^verbatim>\<open>addTuple\<close> does\<close>

lemma addTuple_no_slot:
  "no_slot pd (length ser) \<Longrightarrow> addTuple pd ser = Inr (False, pd)"
  by (simp add: addTuple_def choose_slot_none)

lemma chosen_slot_empty: "chosen_slot pd tuple_size k \<Longrightarrow> empty_f (slot_at pd k)"
  by (auto simp: chosen_slot_def reusable_def unused_def)

lemma addTuple_unfold:
  assumes c: "chosen_slot pd (length ser) k" and len: "length pd = PAGE_SIZE"
  shows "addTuple pd ser =
    (let pd1 = set_empty pd k False;
         off = tuple_offset pd k;
         pd2 = (if offset (slot_at pd k) = INVALID_VALUE then set_offset pd1 k (of_nat off) else pd1)
     in if off + length ser \<ge> PAGE_SIZE then
          Inr (False, set_offset (set_empty pd2 k True) k INVALID_VALUE)
        else if off < metadata_size then Inl AssertionFailed
        else
          let pd3 = (if length_f (slot_at pd k) = INVALID_VALUE
                     then set_length pd2 k (of_nat (length ser)) else pd2)
          in Inr (True, memcpy pd3 off ser))"
proof -
  from c have k: "k < MAX_SLOTS" by (simp add: chosen_slot_def)
  have ch: "choose_slot pd (length ser) = k" by (rule choose_slot_chosen [OF c])
  have o: "get_offset pd i = offset (slot_at pd i)" "get_length pd i = length_f (slot_at pd i)" for i
    by (simp_all add: slot_at_def)
  have off: "(if get_offset (set_empty pd k False) k = INVALID_VALUE then
                (if k \<noteq> 0 then
                   (if get_offset (set_empty pd k False) (k - 1) \<noteq> INVALID_VALUE
                    then unat (get_offset (set_empty pd k False) (k - 1)) +
                         unat (get_length (set_empty pd k False) (k - 1))
                    else metadata_size)
                 else metadata_size)
              else unat (get_offset (set_empty pd k False) k)) = tuple_offset pd k"
    by (auto simp: tuple_offset_def o)
  have l2: "get_length (if offset (slot_at pd k) = INVALID_VALUE
                then set_offset (set_empty pd k False) k v else set_empty pd k False) k
              = length_f (slot_at pd k)" for v
    by (simp add: o)
  show ?thesis
    unfolding addTuple_def ch Let_def off
    using k by (simp add: o l2 MAX_SLOTS_def)
qed

lemma addTuple_no_space:
  assumes c: "chosen_slot pd (length ser) k" and len: "length pd = PAGE_SIZE"
    and full: "PAGE_SIZE \<le> tuple_offset pd k + length ser"
  shows "\<exists>pd'. addTuple pd ser = Inr (False, pd') \<and>
           slot_at pd' k = (slot_at pd k)\<lparr>offset := INVALID_VALUE\<rparr> \<and>
           (\<forall>j < MAX_SLOTS. j \<noteq> k \<longrightarrow> slot_at pd' j = slot_at pd j) \<and>
           drop metadata_size pd' = drop metadata_size pd \<and> length pd' = PAGE_SIZE"
proof -
  from c have k: "k < MAX_SLOTS" by (simp add: chosen_slot_def)
  have e: "empty_f (slot_at pd k)" by (rule chosen_slot_empty [OF c])
  define pd2 where "pd2 = (if offset (slot_at pd k) = INVALID_VALUE
       then set_offset (set_empty pd k False) k (of_nat (tuple_offset pd k)) else set_empty pd k False)"
  define pd' where "pd' = set_offset (set_empty pd2 k True) k INVALID_VALUE"
  have r: "addTuple pd ser = Inr (False, pd')"
    using full by (simp add: addTuple_unfold [OF c len] Let_def pd'_def pd2_def)
  have l2: "length pd2 = PAGE_SIZE" by (simp add: pd2_def len)
  have s2: "slot_at pd2 j = (if j = k then (slot_at pd2 k) else slot_at pd j)" for j
    using k len by (simp add: pd2_def slot_at_set_offset slot_at_set_empty)
  have len2: "length_f (slot_at pd2 k) = length_f (slot_at pd k)"
    using k len by (simp add: pd2_def slot_at_set_offset slot_at_set_empty)
  have sk: "slot_at pd' k = (slot_at pd k)\<lparr>offset := INVALID_VALUE\<rparr>"
    using k l2 e len2 by (simp add: pd'_def slot_at_set_offset slot_at_set_empty)
  have sj: "\<forall>j < MAX_SLOTS. j \<noteq> k \<longrightarrow> slot_at pd' j = slot_at pd j"
    using k l2 s2 by (simp add: pd'_def slot_at_set_offset slot_at_set_empty)
  have d: "drop metadata_size pd' = drop metadata_size pd"
    using k by (simp add: pd'_def pd2_def drop_set_offset drop_set_empty)
  have "length pd' = PAGE_SIZE" by (simp add: pd'_def l2)
  with r sk sj d show ?thesis by blast
qed

lemma addTuple_placed:
  assumes c: "chosen_slot pd (length ser) k" and len: "length pd = PAGE_SIZE"
    and fits: "tuple_offset pd k + length ser < PAGE_SIZE"
    and area: "metadata_size \<le> tuple_offset pd k"
  shows "\<exists>pd'. addTuple pd ser = Inr (True, pd') \<and>
           slot_at pd' k = \<lparr>empty_f = False, offset = of_nat (tuple_offset pd k),
             length_f = (if length_f (slot_at pd k) = INVALID_VALUE then of_nat (length ser)
                         else length_f (slot_at pd k))\<rparr> \<and>
           (\<forall>j < MAX_SLOTS. j \<noteq> k \<longrightarrow> slot_at pd' j = slot_at pd j) \<and>
           take (length ser) (drop (tuple_offset pd k) pd') = ser \<and> length pd' = PAGE_SIZE"
proof -
  from c have k: "k < MAX_SLOTS" by (simp add: chosen_slot_def)
  define off where "off = tuple_offset pd k"
  define pd2 where "pd2 = (if offset (slot_at pd k) = INVALID_VALUE
       then set_offset (set_empty pd k False) k (of_nat off) else set_empty pd k False)"
  define pd3 where "pd3 = (if length_f (slot_at pd k) = INVALID_VALUE
       then set_length pd2 k (of_nat (length ser)) else pd2)"
  define pd' where "pd' = memcpy pd3 off ser"
  have r: "addTuple pd ser = Inr (True, pd')"
    using fits area
    by (simp add: addTuple_unfold [OF c len] Let_def pd'_def pd3_def pd2_def off_def)
  have l2: "length pd2 = PAGE_SIZE" by (simp add: pd2_def len)
  have l3: "length pd3 = PAGE_SIZE" by (simp add: pd3_def l2)
  have offk: "offset (slot_at pd k) \<noteq> INVALID_VALUE \<Longrightarrow> of_nat off = offset (slot_at pd k)"
    by (simp add: off_def tuple_offset_def)
  have s2: "slot_at pd2 j = (if j = k then \<lparr>empty_f = False, offset = of_nat off,
                 length_f = length_f (slot_at pd k)\<rparr> else slot_at pd j)" for j
    using k len offk by (simp add: pd2_def slot_at_set_offset slot_at_set_empty)
  have s3: "slot_at pd3 j = (if j = k then \<lparr>empty_f = False, offset = of_nat off,
                 length_f = (if length_f (slot_at pd k) = INVALID_VALUE then of_nat (length ser)
                             else length_f (slot_at pd k))\<rparr> else slot_at pd j)" for j
    using k l2 s2 by (simp add: pd3_def slot_at_set_length)
  have in_page: "off \<le> length pd3" using fits l3 by (simp add: off_def)
  have sm: "j < MAX_SLOTS \<Longrightarrow> slot_at pd' j = slot_at pd3 j" for j
    unfolding pd'_def using area in_page by (intro slot_at_memcpy) (simp_all add: off_def)
  have rd: "take (length ser) (drop off pd') = ser"
    unfolding pd'_def by (rule read_memcpy [OF in_page])
  have "length pd' = PAGE_SIZE"
    unfolding pd'_def using fits l3 by (simp add: length_memcpy off_def)
  with r sm s3 k rd show ?thesis by (auto simp: off_def)
qed

lemma addTuple_asserts:
  assumes c: "chosen_slot pd (length ser) k" and len: "length pd = PAGE_SIZE"
    and fits: "tuple_offset pd k + length ser < PAGE_SIZE"
    and low: "tuple_offset pd k < metadata_size"
  shows "addTuple pd ser = Inl AssertionFailed"
  using fits low by (simp add: addTuple_unfold [OF c len] Let_def)

text \<open>
  \<^verbatim>\<open>addTuple\<close> on any buffer of \<^verbatim>\<open>PAGE_SIZE\<close> bytes, whatever its slots hold. The slot is
  the first that is empty with a length member of at least the encoded size, otherwise
  the first that is empty with offset \<^verbatim>\<open>INVALID_VALUE\<close>, otherwise the call returns false
  and the page is unchanged. With the slot chosen the call returns false, returns true
  or stops at its assertion on the offset.
\<close>

lemma addTuple_any_page:
  assumes "length pd = PAGE_SIZE"
  shows "(no_slot pd (length ser) \<or> (\<exists>k. chosen_slot pd (length ser) k)) \<and>
    (no_slot pd (length ser) \<longrightarrow> addTuple pd ser = Inr (False, pd)) \<and>
    (\<forall>k. chosen_slot pd (length ser) k \<longrightarrow>
       (PAGE_SIZE \<le> tuple_offset pd k + length ser \<longrightarrow>
          (\<exists>pd'. addTuple pd ser = Inr (False, pd') \<and>
             slot_at pd' k = (slot_at pd k)\<lparr>offset := INVALID_VALUE\<rparr> \<and>
             (\<forall>j < MAX_SLOTS. j \<noteq> k \<longrightarrow> slot_at pd' j = slot_at pd j) \<and>
             drop metadata_size pd' = drop metadata_size pd \<and> length pd' = PAGE_SIZE)) \<and>
       (tuple_offset pd k + length ser < PAGE_SIZE \<and> metadata_size \<le> tuple_offset pd k \<longrightarrow>
          (\<exists>pd'. addTuple pd ser = Inr (True, pd') \<and>
             slot_at pd' k = \<lparr>empty_f = False, offset = of_nat (tuple_offset pd k),
               length_f = (if length_f (slot_at pd k) = INVALID_VALUE then of_nat (length ser)
                           else length_f (slot_at pd k))\<rparr> \<and>
             (\<forall>j < MAX_SLOTS. j \<noteq> k \<longrightarrow> slot_at pd' j = slot_at pd j) \<and>
             take (length ser) (drop (tuple_offset pd k) pd') = ser \<and> length pd' = PAGE_SIZE)) \<and>
       (tuple_offset pd k + length ser < PAGE_SIZE \<and> tuple_offset pd k < metadata_size \<longrightarrow>
          addTuple pd ser = Inl AssertionFailed))"
proof (intro conjI allI impI)
  show "no_slot pd (length ser) \<or> (\<exists>k. chosen_slot pd (length ser) k)"
    by (rule slot_cases)
next
  assume "no_slot pd (length ser)"
  then show "addTuple pd ser = Inr (False, pd)" by (rule addTuple_no_slot)
next
  fix k assume c: "chosen_slot pd (length ser) k"
  {
    assume "PAGE_SIZE \<le> tuple_offset pd k + length ser"
    from addTuple_no_space [OF c assms this]
    show "\<exists>pd'. addTuple pd ser = Inr (False, pd') \<and>
             slot_at pd' k = (slot_at pd k)\<lparr>offset := INVALID_VALUE\<rparr> \<and>
             (\<forall>j < MAX_SLOTS. j \<noteq> k \<longrightarrow> slot_at pd' j = slot_at pd j) \<and>
             drop metadata_size pd' = drop metadata_size pd \<and> length pd' = PAGE_SIZE" .
  next
    assume "tuple_offset pd k + length ser < PAGE_SIZE \<and> metadata_size \<le> tuple_offset pd k"
    then have a: "tuple_offset pd k + length ser < PAGE_SIZE" "metadata_size \<le> tuple_offset pd k"
      by simp_all
    from addTuple_placed [OF c assms a]
    show "\<exists>pd'. addTuple pd ser = Inr (True, pd') \<and>
             slot_at pd' k = \<lparr>empty_f = False, offset = of_nat (tuple_offset pd k),
               length_f = (if length_f (slot_at pd k) = INVALID_VALUE then of_nat (length ser)
                           else length_f (slot_at pd k))\<rparr> \<and>
             (\<forall>j < MAX_SLOTS. j \<noteq> k \<longrightarrow> slot_at pd' j = slot_at pd j) \<and>
             take (length ser) (drop (tuple_offset pd k) pd') = ser \<and> length pd' = PAGE_SIZE" .
  next
    assume "tuple_offset pd k + length ser < PAGE_SIZE \<and> tuple_offset pd k < metadata_size"
    then have a: "tuple_offset pd k + length ser < PAGE_SIZE" "tuple_offset pd k < metadata_size"
      by simp_all
    from addTuple_asserts [OF c assms a] show "addTuple pd ser = Inl AssertionFailed" .
  }
qed

subsection \<open>Concrete pages\<close>

lemma chosen_slot_new_page:
  assumes "n \<le> 65535"
  shows "chosen_slot SlottedPage_new n 0" "tuple_offset SlottedPage_new 0 = metadata_size"
proof -
  have z: "(0 :: nat) < MAX_SLOTS" by (simp add: MAX_SLOTS_def)
  have "reusable SlottedPage_new n 0"
    using assms by (simp add: reusable_def slot_at_SlottedPage_new [OF z] never_used_def INVALID_VALUE_def)
  with z show "chosen_slot SlottedPage_new n 0" by (simp add: chosen_slot_def)
  show "tuple_offset SlottedPage_new 0 = metadata_size"
    by (simp add: tuple_offset_def slot_at_SlottedPage_new [OF z] never_used_def)
qed

lemma no_slot_zero_page: "0 < n \<Longrightarrow> no_slot (replicate PAGE_SIZE 0) n"
  by (simp add: no_slot_def reusable_def unused_def slot_at_zero_page)

subsection \<open>Pages built by the page's own operations\<close>

lemma in_tuple_area_valid:
  assumes "in_tuple_area sl"
  shows "offset sl \<noteq> INVALID_VALUE" "length_f sl \<noteq> INVALID_VALUE"
    "unat (length_f sl) < PAGE_SIZE" "unat (offset sl) < PAGE_SIZE"
proof -
  from assms have b: "unat (offset sl) < 4096" "unat (length_f sl) < 4096"
    by (simp_all add: in_tuple_area_def PAGE_SIZE_def)
  have i: "unat INVALID_VALUE = 65535" by (simp add: INVALID_VALUE_def)
  from b(1) i show "offset sl \<noteq> INVALID_VALUE" by auto
  from b(2) i show "length_f sl \<noteq> INVALID_VALUE" by auto
  from b show "unat (length_f sl) < PAGE_SIZE" "unat (offset sl) < PAGE_SIZE"
    by (simp_all add: PAGE_SIZE_def)
qed

lemma never_used_not_in_tuple_area: "\<not> in_tuple_area never_used"
  using in_tuple_area_valid(1) [of never_used] by (auto simp: never_used_def)

lemma builtD:
  assumes "built pd m"
  shows "length pd = PAGE_SIZE" "m \<le> MAX_SLOTS"
    "j < m \<Longrightarrow> in_tuple_area (slot_at pd j)"
    "m \<le> j \<Longrightarrow> j < MAX_SLOTS \<Longrightarrow> slot_at pd j = never_used"
  using assms unfolding built_def by blast+

lemma builtI:
  assumes "length pd = PAGE_SIZE" "m \<le> MAX_SLOTS"
    "\<And>j. j < m \<Longrightarrow> in_tuple_area (slot_at pd j)"
    "\<And>j. m \<le> j \<Longrightarrow> j < MAX_SLOTS \<Longrightarrow> slot_at pd j = never_used"
  shows "built pd m"
  unfolding built_def using assms by blast

lemma built_never_used_iff:
  assumes b: "built pd m" and j: "j < MAX_SLOTS"
  shows "slot_at pd j = never_used \<longleftrightarrow> m \<le> j"
proof
  assume n: "slot_at pd j = never_used"
  show "m \<le> j"
  proof (rule ccontr)
    assume "\<not> m \<le> j"
    then have "j < m" by simp
    from builtD(3) [OF b this] n never_used_not_in_tuple_area show False by simp
  qed
next
  assume "m \<le> j"
  then show "slot_at pd j = never_used" using j by (rule builtD(4) [OF b])
qed

lemma built_new: "built SlottedPage_new 0"
  by (rule builtI) (simp_all add: slot_at_SlottedPage_new)

lemma built_deleteTuple:
  assumes b: "built pd m"
  shows "built (deleteTuple pd i) m"
proof (cases "i < MAX_SLOTS \<and> \<not> get_empty pd i")
  case False
  then have "deleteTuple pd i = pd" by (auto simp: deleteTuple_def)
  with b show ?thesis by simp
next
  case True
  then have i: "i < MAX_SLOTS" and ne: "\<not> empty_f (slot_at pd i)" by (simp_all add: slot_at_def)
  note l = builtD(1) [OF b]
  have d: "deleteTuple pd i = set_empty pd i True" using True by (simp add: deleteTuple_def)
  have s: "slot_at (deleteTuple pd i) j =
      (if j = i then (slot_at pd j)\<lparr>empty_f := True\<rparr> else slot_at pd j)" for j
    unfolding d by (rule slot_at_set_empty [OF i l])
  have im: "i < m"
  proof (rule ccontr)
    assume "\<not> i < m"
    then have "m \<le> i" by simp
    from builtD(4) [OF b this i] ne show False by (simp add: never_used_def)
  qed
  show ?thesis
  proof (rule builtI)
    show "length (deleteTuple pd i) = PAGE_SIZE" by (simp add: d l)
    show "m \<le> MAX_SLOTS" by (rule builtD(2) [OF b])
    show "in_tuple_area (slot_at (deleteTuple pd i) j)" if "j < m" for j
      using builtD(3) [OF b that] by (auto simp: s in_tuple_area_def)
    show "slot_at (deleteTuple pd i) j = never_used" if "m \<le> j" "j < MAX_SLOTS" for j
    proof -
      from that(1) im have "j \<noteq> i" by simp
      then show ?thesis using builtD(4) [OF b that] by (simp add: s)
    qed
  qed
qed

subsection \<open>The slot chosen on a built page\<close>

lemma built_reusable:
  assumes b: "built pd m" and j: "j < MAX_SLOTS"
  shows "reusable pd n j \<longleftrightarrow> emptied_fits pd n j \<or> (m \<le> j \<and> n \<le> 65535)"
proof (cases "j < m")
  case True
  from in_tuple_area_valid(1) [OF builtD(3) [OF b True]] True j
  show ?thesis by (auto simp: reusable_def emptied_fits_def)
next
  case False
  then have "m \<le> j" by simp
  from builtD(4) [OF b this j] False
  show ?thesis
    by (simp add: reusable_def emptied_fits_def never_used_def INVALID_VALUE_def)
qed

lemma built_unused:
  assumes b: "built pd m" and j: "j < MAX_SLOTS"
  shows "unused pd j \<longleftrightarrow> m \<le> j"
proof (cases "j < m")
  case True
  from in_tuple_area_valid(1) [OF builtD(3) [OF b True]] True
  show ?thesis by (simp add: unused_def)
next
  case False
  then have "m \<le> j" by simp
  from builtD(4) [OF b this j] False
  show ?thesis by (simp add: unused_def never_used_def)
qed

lemma emptied_fits_below:
  assumes b: "built pd m" and e: "emptied_fits pd n j"
  shows "j < m"
proof (rule ccontr)
  assume "\<not> j < m"
  then have "m \<le> j" by simp
  moreover from e have "j < MAX_SLOTS" by (simp add: emptied_fits_def)
  ultimately have "slot_at pd j = never_used" by (rule builtD(4) [OF b])
  with e show False by (simp add: emptied_fits_def never_used_def)
qed

lemma chosen_first_emptied_fit:
  assumes b: "built pd m" and f: "first_emptied_fit pd n k"
  shows "chosen_slot pd n k" "tuple_offset pd k = unat (offset (slot_at pd k))" "k < m"
proof -
  from f have e: "emptied_fits pd n k" and first: "\<forall>j < k. \<not> emptied_fits pd n j"
    by (simp_all add: first_emptied_fit_def)
  from e have k: "k < MAX_SLOTS" by (simp add: emptied_fits_def)
  show km: "k < m" by (rule emptied_fits_below [OF b e])
  have r: "reusable pd n k" using e by (simp add: built_reusable [OF b k])
  have "\<not> reusable pd n j" if "j < k" for j
  proof -
    from that k have j: "j < MAX_SLOTS" by simp
    from that km have "\<not> m \<le> j" by simp
    with first that show ?thesis by (simp add: built_reusable [OF b j])
  qed
  with r k show "chosen_slot pd n k" by (simp add: chosen_slot_def)
  from e show "tuple_offset pd k = unat (offset (slot_at pd k))"
    by (simp add: tuple_offset_def emptied_fits_def)
qed

lemma chosen_first_never_used:
  assumes b: "built pd m" and none: "\<forall>j. \<not> emptied_fits pd n j" and m: "m < MAX_SLOTS"
  shows "chosen_slot pd n m" "tuple_offset pd m = append_offset pd m"
proof -
  have nu: "slot_at pd m = never_used" by (rule builtD(4) [OF b le_refl m])
  have r: "reusable pd n j \<longleftrightarrow> m \<le> j \<and> n \<le> 65535" if "j < MAX_SLOTS" for j
    using none by (simp add: built_reusable [OF b that])
  have u: "unused pd j \<longleftrightarrow> m \<le> j" if "j < MAX_SLOTS" for j
    by (rule built_unused [OF b that])
  have below: "j < MAX_SLOTS" if "j < m" for j using that m by simp
  show "chosen_slot pd n m"
  proof (cases "n \<le> 65535")
    case True
    have "reusable pd n m" using True by (simp add: r [OF m])
    moreover have "\<forall>j < m. \<not> reusable pd n j" by (simp add: r [OF below])
    ultimately show ?thesis using m by (simp add: chosen_slot_def)
  next
    case False
    have "\<forall>j < MAX_SLOTS. \<not> reusable pd n j" using False by (simp add: r)
    moreover have "unused pd m" by (simp add: u [OF m])
    moreover have "\<forall>j < m. \<not> unused pd j" by (simp add: u [OF below])
    ultimately show ?thesis using m by (simp add: chosen_slot_def)
  qed
  show "tuple_offset pd m = append_offset pd m"
  proof (cases "m = 0")
    case True
    then show ?thesis using nu by (simp add: tuple_offset_def append_offset_def never_used_def)
  next
    case False
    then have "m - 1 < m" by simp
    from in_tuple_area_valid(1) [OF builtD(3) [OF b this]] False nu
    show ?thesis by (simp add: tuple_offset_def append_offset_def never_used_def)
  qed
qed

lemma no_slot_full_directory:
  assumes b: "built pd MAX_SLOTS" and none: "\<forall>j. \<not> emptied_fits pd n j"
  shows "no_slot pd n"
  unfolding no_slot_def
proof (intro allI impI)
  fix j assume j: "j < MAX_SLOTS"
  then have "\<not> MAX_SLOTS \<le> j" by simp
  with none show "\<not> reusable pd n j \<and> \<not> unused pd j"
    by (simp add: built_reusable [OF b j] built_unused [OF b j])
qed

lemma append_offset_area:
  assumes b: "built pd m"
  shows "metadata_size \<le> append_offset pd m"
proof (cases "m = 0")
  case True
  then show ?thesis by (simp add: append_offset_def)
next
  case False
  then have "m - 1 < m" by simp
  from builtD(3) [OF b this] False show ?thesis
    by (simp add: append_offset_def in_tuple_area_def)
qed

subsection \<open>\<^verbatim>\<open>addTuple\<close> on a built page\<close>

lemma addTuple_reuses:
  assumes b: "built pd m" and f: "first_emptied_fit pd (length ser) k"
  shows "\<exists>pd'. addTuple pd ser = Inr (True, pd') \<and>
     slot_at pd' k = (slot_at pd k)\<lparr>empty_f := False\<rparr> \<and>
     (\<forall>j < MAX_SLOTS. j \<noteq> k \<longrightarrow> slot_at pd' j = slot_at pd j) \<and>
     take (length ser) (drop (unat (offset (slot_at pd k))) pd') = ser \<and> built pd' m"
proof -
  note c = chosen_first_emptied_fit [OF b f]
  note l = builtD(1) [OF b]
  note a = builtD(3) [OF b c(3)]
  from f have fit: "length ser \<le> unat (length_f (slot_at pd k))"
    by (simp add: first_emptied_fit_def emptied_fits_def)
  from c(3) builtD(2) [OF b] have k: "k < MAX_SLOTS" by simp
  have fits: "tuple_offset pd k + length ser < PAGE_SIZE"
    using a fit by (simp add: c(2) in_tuple_area_def)
  have area: "metadata_size \<le> tuple_offset pd k"
    using a by (simp add: c(2) in_tuple_area_def)
  from addTuple_placed [OF c(1) l fits area] obtain pd' where
    r: "addTuple pd ser = Inr (True, pd')"
    and sk: "slot_at pd' k = \<lparr>empty_f = False, offset = of_nat (tuple_offset pd k),
             length_f = (if length_f (slot_at pd k) = INVALID_VALUE then of_nat (length ser)
                         else length_f (slot_at pd k))\<rparr>"
    and sj: "\<forall>j < MAX_SLOTS. j \<noteq> k \<longrightarrow> slot_at pd' j = slot_at pd j"
    and rd: "take (length ser) (drop (tuple_offset pd k) pd') = ser"
    and l': "length pd' = PAGE_SIZE"
    by blast
  have sk': "slot_at pd' k = (slot_at pd k)\<lparr>empty_f := False\<rparr>"
    unfolding sk c(2) using in_tuple_area_valid(2) [OF a] by simp
  have rd': "take (length ser) (drop (unat (offset (slot_at pd k))) pd') = ser"
    using rd unfolding c(2) .
  have b': "built pd' m"
  proof (rule builtI)
    show "length pd' = PAGE_SIZE" by (rule l')
    show "m \<le> MAX_SLOTS" by (rule builtD(2) [OF b])
    show "in_tuple_area (slot_at pd' j)" if "j < m" for j
    proof (cases "j = k")
      case True
      with a show ?thesis by (simp add: sk' in_tuple_area_def)
    next
      case False
      from that builtD(2) [OF b] have "j < MAX_SLOTS" by simp
      with sj False have "slot_at pd' j = slot_at pd j" by simp
      with builtD(3) [OF b that] show ?thesis by simp
    qed
    show "slot_at pd' j = never_used" if "m \<le> j" "j < MAX_SLOTS" for j
    proof -
      from that(1) c(3) have "j \<noteq> k" by simp
      with sj that(2) have "slot_at pd' j = slot_at pd j" by simp
      with builtD(4) [OF b that] show ?thesis by simp
    qed
  qed
  show ?thesis
    by (rule exI [of _ pd']) (intro conjI r sk' sj rd' b')
qed

lemma addTuple_appends:
  assumes b: "built pd m" and none: "\<forall>j. \<not> emptied_fits pd (length ser) j"
    and m: "m < MAX_SLOTS" and fits: "append_offset pd m + length ser < PAGE_SIZE"
  shows "\<exists>pd'. addTuple pd ser = Inr (True, pd') \<and>
     slot_at pd' m = \<lparr>empty_f = False, offset = of_nat (append_offset pd m),
                       length_f = of_nat (length ser)\<rparr> \<and>
     (\<forall>j < MAX_SLOTS. j \<noteq> m \<longrightarrow> slot_at pd' j = slot_at pd j) \<and>
     take (length ser) (drop (append_offset pd m) pd') = ser \<and> built pd' (Suc m)"
proof -
  note c = chosen_first_never_used [OF b none m]
  note l = builtD(1) [OF b]
  have nu: "slot_at pd m = never_used" by (rule builtD(4) [OF b le_refl m])
  have area: "metadata_size \<le> append_offset pd m" by (rule append_offset_area [OF b])
  from addTuple_placed [OF c(1) l fits [folded c(2)] area [folded c(2)]] obtain pd' where
    r: "addTuple pd ser = Inr (True, pd')"
    and sk: "slot_at pd' m = \<lparr>empty_f = False, offset = of_nat (tuple_offset pd m),
             length_f = (if length_f (slot_at pd m) = INVALID_VALUE then of_nat (length ser)
                         else length_f (slot_at pd m))\<rparr>"
    and sj: "\<forall>j < MAX_SLOTS. j \<noteq> m \<longrightarrow> slot_at pd' j = slot_at pd j"
    and rd: "take (length ser) (drop (tuple_offset pd m) pd') = ser"
    and l': "length pd' = PAGE_SIZE"
    by blast
  have sk': "slot_at pd' m = \<lparr>empty_f = False, offset = of_nat (append_offset pd m),
                       length_f = of_nat (length ser)\<rparr>"
    unfolding sk c(2) by (simp add: nu never_used_def)
  have rd': "take (length ser) (drop (append_offset pd m) pd') = ser"
    using rd unfolding c(2) .
  from fits have small: "append_offset pd m < 65536" "length ser < 65536"
    by (simp_all add: PAGE_SIZE_def)
  have u: "unat (of_nat (append_offset pd m) :: 16 word) = append_offset pd m"
    "unat (of_nat (length ser) :: 16 word) = length ser"
    using small by (simp_all add: unat_of_nat)
  have new: "in_tuple_area (slot_at pd' m)"
    using area fits by (simp add: sk' in_tuple_area_def u)
  have b': "built pd' (Suc m)"
  proof (rule builtI)
    show "length pd' = PAGE_SIZE" by (rule l')
    show "Suc m \<le> MAX_SLOTS" using m by simp
    show "in_tuple_area (slot_at pd' j)" if "j < Suc m" for j
    proof (cases "j = m")
      case True
      with new show ?thesis by simp
    next
      case False
      with that have jm: "j < m" by simp
      with m have "j < MAX_SLOTS" by simp
      with sj False have "slot_at pd' j = slot_at pd j" by simp
      with builtD(3) [OF b jm] show ?thesis by simp
    qed
    show "slot_at pd' j = never_used" if "Suc m \<le> j" "j < MAX_SLOTS" for j
    proof -
      from that(1) have "j \<noteq> m" "m \<le> j" by simp_all
      with sj that(2) have "slot_at pd' j = slot_at pd j" by simp
      with builtD(4) [OF b \<open>m \<le> j\<close> that(2)] show ?thesis by simp
    qed
  qed
  show ?thesis
    by (rule exI [of _ pd']) (intro conjI r sk' sj rd' b')
qed

lemma addTuple_page_full:
  assumes b: "built pd m" and none: "\<forall>j. \<not> emptied_fits pd (length ser) j"
    and m: "m < MAX_SLOTS" and full: "PAGE_SIZE \<le> append_offset pd m + length ser"
  shows "\<exists>pd'. addTuple pd ser = Inr (False, pd') \<and>
     (\<forall>j < MAX_SLOTS. slot_at pd' j = slot_at pd j) \<and>
     drop metadata_size pd' = drop metadata_size pd \<and> built pd' m"
proof -
  note c = chosen_first_never_used [OF b none m]
  note l = builtD(1) [OF b]
  have nu: "slot_at pd m = never_used" by (rule builtD(4) [OF b le_refl m])
  from addTuple_no_space [OF c(1) l full [folded c(2)]] obtain pd' where
    r: "addTuple pd ser = Inr (False, pd')"
    and sk: "slot_at pd' m = (slot_at pd m)\<lparr>offset := INVALID_VALUE\<rparr>"
    and sj: "\<forall>j < MAX_SLOTS. j \<noteq> m \<longrightarrow> slot_at pd' j = slot_at pd j"
    and d: "drop metadata_size pd' = drop metadata_size pd"
    and l': "length pd' = PAGE_SIZE"
    by blast
  have sk': "slot_at pd' m = slot_at pd m"
    unfolding sk by (simp add: nu never_used_def)
  have same: "\<forall>j < MAX_SLOTS. slot_at pd' j = slot_at pd j"
  proof (intro allI impI)
    fix j assume j: "j < MAX_SLOTS"
    show "slot_at pd' j = slot_at pd j"
    proof (cases "j = m")
      case True
      with sk' show ?thesis by simp
    next
      case False
      with sj j show ?thesis by simp
    qed
  qed
  have b': "built pd' m"
  proof (rule builtI)
    show "length pd' = PAGE_SIZE" by (rule l')
    show "m \<le> MAX_SLOTS" by (rule builtD(2) [OF b])
    show "in_tuple_area (slot_at pd' j)" if "j < m" for j
    proof -
      from that m have "j < MAX_SLOTS" by simp
      with same have "slot_at pd' j = slot_at pd j" by simp
      with builtD(3) [OF b that] show ?thesis by simp
    qed
    show "slot_at pd' j = never_used" if "m \<le> j" "j < MAX_SLOTS" for j
    proof -
      from same that(2) have "slot_at pd' j = slot_at pd j" by simp
      with builtD(4) [OF b that] show ?thesis by simp
    qed
  qed
  show ?thesis
    by (rule exI [of _ pd']) (intro conjI r same d b')
qed

lemma addTuple_directory_full:
  assumes b: "built pd m" and none: "\<forall>j. \<not> emptied_fits pd (length ser) j"
    and m: "m = MAX_SLOTS"
  shows "addTuple pd ser = Inr (False, pd)"
proof -
  from b m have "built pd MAX_SLOTS" by simp
  from no_slot_full_directory [OF this none] show ?thesis by (rule addTuple_no_slot)
qed

lemma first_emptied_fit_exists:
  assumes "emptied_fits pd n j"
  shows "\<exists>k. first_emptied_fit pd n k"
proof -
  from assms have "\<exists>j < MAX_SLOTS. emptied_fits pd n j" by (auto simp: emptied_fits_def)
  from first_index [OF this] show ?thesis
    unfolding first_emptied_fit_def by blast
qed

text \<open>
  \<^verbatim>\<open>extend(till_page_id)\<close> of the storage manager writes pages of zero bytes, which no
  page operation builds: every slot reads as occupied, and a tuple finds no slot.
\<close>

lemma addTuple_zero_page:
  assumes "ser \<noteq> []"
  shows "addTuple (replicate PAGE_SIZE 0) ser = Inr (False, replicate PAGE_SIZE 0)"
  using assms by (intro addTuple_no_slot no_slot_zero_page) simp

text \<open>
  C3. On every page built by the constructor, \<^verbatim>\<open>addTuple\<close> and \<^verbatim>\<open>deleteTuple\<close>, with \<open>m\<close>
  slots used so far (so that slot \<open>m\<close> is the first never-used slot), and for every
  encoded tuple:

  \<^item> when an emptied slot retains a length of at least the encoded size, the first such
    slot is chosen and the tuple is placed at that slot's existing offset: the slot
    becomes occupied, keeps its offset and length, and the bytes are copied there;

  \<^item> otherwise, when a never-used slot is left, the first one, slot \<open>m\<close>, is chosen and
    the offset is \<^verbatim>\<open>metadata_size\<close> for \<open>m = 0\<close> and the predecessor's offset plus length
    otherwise. When offset plus encoded size is below \<^verbatim>\<open>PAGE_SIZE\<close> the slot becomes
    occupied with that offset and the encoded size as its length, and the bytes are
    copied there. When offset plus encoded size reaches \<^verbatim>\<open>PAGE_SIZE\<close> the call returns
    false (\<open>NoSpace\<close>) and every slot, the chosen one included, and the tuple area are as
    before;

  \<^item> otherwise the call returns false (\<open>NoSpace\<close>) and the page is unchanged.

  In every case the page is built afterwards, so the assertion on the offset never
  fails on these pages.
\<close>

theorem addTuple_priority_and_offset:
  assumes b: "built pd m"
  shows "(\<forall>j < MAX_SLOTS. slot_at pd j = never_used \<longleftrightarrow> m \<le> j) \<and>
    (\<forall>j. emptied_fits pd (length ser) j \<longrightarrow> (\<exists>k. first_emptied_fit pd (length ser) k)) \<and>
    (\<forall>k. first_emptied_fit pd (length ser) k \<longrightarrow>
       (\<exists>pd'. addTuple pd ser = Inr (True, pd') \<and>
          slot_at pd' k = (slot_at pd k)\<lparr>empty_f := False\<rparr> \<and>
          (\<forall>j < MAX_SLOTS. j \<noteq> k \<longrightarrow> slot_at pd' j = slot_at pd j) \<and>
          take (length ser) (drop (unat (offset (slot_at pd k))) pd') = ser \<and> built pd' m)) \<and>
    ((\<forall>j. \<not> emptied_fits pd (length ser) j) \<and> m < MAX_SLOTS \<and>
      append_offset pd m + length ser < PAGE_SIZE \<longrightarrow>
       (\<exists>pd'. addTuple pd ser = Inr (True, pd') \<and>
          slot_at pd' m = \<lparr>empty_f = False, offset = of_nat (append_offset pd m),
                            length_f = of_nat (length ser)\<rparr> \<and>
          (\<forall>j < MAX_SLOTS. j \<noteq> m \<longrightarrow> slot_at pd' j = slot_at pd j) \<and>
          take (length ser) (drop (append_offset pd m) pd') = ser \<and> built pd' (Suc m))) \<and>
    ((\<forall>j. \<not> emptied_fits pd (length ser) j) \<and> m < MAX_SLOTS \<and>
      PAGE_SIZE \<le> append_offset pd m + length ser \<longrightarrow>
       (\<exists>pd'. addTuple pd ser = Inr (False, pd') \<and>
          (\<forall>j < MAX_SLOTS. slot_at pd' j = slot_at pd j) \<and>
          drop metadata_size pd' = drop metadata_size pd \<and> built pd' m)) \<and>
    ((\<forall>j. \<not> emptied_fits pd (length ser) j) \<and> m = MAX_SLOTS \<longrightarrow>
       addTuple pd ser = Inr (False, pd))"
proof (intro conjI allI impI)
  fix j assume "j < MAX_SLOTS"
  then show "slot_at pd j = never_used \<longleftrightarrow> m \<le> j" by (rule built_never_used_iff [OF b])
next
  fix j assume "emptied_fits pd (length ser) j"
  then show "\<exists>k. first_emptied_fit pd (length ser) k" by (rule first_emptied_fit_exists)
next
  fix k assume "first_emptied_fit pd (length ser) k"
  from addTuple_reuses [OF b this]
  show "\<exists>pd'. addTuple pd ser = Inr (True, pd') \<and>
          slot_at pd' k = (slot_at pd k)\<lparr>empty_f := False\<rparr> \<and>
          (\<forall>j < MAX_SLOTS. j \<noteq> k \<longrightarrow> slot_at pd' j = slot_at pd j) \<and>
          take (length ser) (drop (unat (offset (slot_at pd k))) pd') = ser \<and> built pd' m" .
next
  assume a: "(\<forall>j. \<not> emptied_fits pd (length ser) j) \<and> m < MAX_SLOTS \<and>
      append_offset pd m + length ser < PAGE_SIZE"
  from addTuple_appends [OF b conjunct1 [OF a] conjunct1 [OF conjunct2 [OF a]]
      conjunct2 [OF conjunct2 [OF a]]]
  show "\<exists>pd'. addTuple pd ser = Inr (True, pd') \<and>
          slot_at pd' m = \<lparr>empty_f = False, offset = of_nat (append_offset pd m),
                            length_f = of_nat (length ser)\<rparr> \<and>
          (\<forall>j < MAX_SLOTS. j \<noteq> m \<longrightarrow> slot_at pd' j = slot_at pd j) \<and>
          take (length ser) (drop (append_offset pd m) pd') = ser \<and> built pd' (Suc m)" .
next
  assume a: "(\<forall>j. \<not> emptied_fits pd (length ser) j) \<and> m < MAX_SLOTS \<and>
      PAGE_SIZE \<le> append_offset pd m + length ser"
  from addTuple_page_full [OF b conjunct1 [OF a] conjunct1 [OF conjunct2 [OF a]]
      conjunct2 [OF conjunct2 [OF a]]]
  show "\<exists>pd'. addTuple pd ser = Inr (False, pd') \<and>
          (\<forall>j < MAX_SLOTS. slot_at pd' j = slot_at pd j) \<and>
          drop metadata_size pd' = drop metadata_size pd \<and> built pd' m" .
next
  assume a: "(\<forall>j. \<not> emptied_fits pd (length ser) j) \<and> m = MAX_SLOTS"
  from addTuple_directory_full [OF b conjunct1 [OF a] conjunct2 [OF a]]
  show "addTuple pd ser = Inr (False, pd)" .
qed

text \<open>
  The constructor's page with a tuple of 20 bytes, which goes to slot 0 at offset 3072,
  and with one of 2000 bytes, which does not fit; then the first page after
  \<^verbatim>\<open>deleteTuple(0)\<close> with a tuple of 10 bytes, which reuses slot 0 with its offset and
  its length of 20.
\<close>

theorem addTuple_priority_and_offset_witness:
  "built SlottedPage_new 0 \<and>
   (\<forall>j. \<not> emptied_fits SlottedPage_new 20 j) \<and> append_offset SlottedPage_new 0 = 3072 \<and>
   (\<exists>pd'. addTuple SlottedPage_new (replicate 20 65) = Inr (True, pd') \<and>
      slot_at pd' 0 = \<lparr>empty_f = False, offset = 3072, length_f = 20\<rparr> \<and>
      take 20 (drop 3072 pd') = replicate 20 65 \<and> built pd' 1) \<and>
   (\<exists>pd'. addTuple SlottedPage_new (replicate 2000 65) = Inr (False, pd') \<and>
      slot_at pd' 0 = never_used \<and> built pd' 0) \<and>
   (\<exists>pd' pd''. addTuple SlottedPage_new (replicate 20 65) = Inr (True, pd') \<and>
      built (deleteTuple pd' 0) 1 \<and> first_emptied_fit (deleteTuple pd' 0) 10 0 \<and>
      addTuple (deleteTuple pd' 0) (replicate 10 66) = Inr (True, pd'') \<and>
      slot_at pd'' 0 = \<lparr>empty_f = False, offset = 3072, length_f = 20\<rparr> \<and>
      take 10 (drop 3072 pd'') = replicate 10 66 \<and> built pd'' 1)"
proof -
  have b: "built SlottedPage_new 0" by (rule built_new)
  have none: "\<forall>j. \<not> emptied_fits SlottedPage_new n j" for n
    using emptied_fits_below [OF b] by blast
  have ao: "append_offset SlottedPage_new 0 = 3072"
    by (simp add: append_offset_def metadata_size_def SLOT_SIZE_def MAX_SLOTS_def)
  have z: "(0 :: nat) < MAX_SLOTS" by (simp add: MAX_SLOTS_def)
  have h1: "(\<forall>j. \<not> emptied_fits SlottedPage_new (length (replicate 20 (65 :: byte))) j) \<and>
      0 < MAX_SLOTS \<and>
      append_offset SlottedPage_new 0 + length (replicate 20 (65 :: byte)) < PAGE_SIZE"
    using none z by (simp add: ao PAGE_SIZE_def)
  have h2: "(\<forall>j. \<not> emptied_fits SlottedPage_new (length (replicate 2000 (65 :: byte))) j) \<and>
      0 < MAX_SLOTS \<and>
      PAGE_SIZE \<le> append_offset SlottedPage_new 0 + length (replicate 2000 (65 :: byte))"
    using none z by (simp add: ao PAGE_SIZE_def)
  note t = addTuple_priority_and_offset [OF b, THEN conjunct2, THEN conjunct2, THEN conjunct2]
  from t [of "replicate 20 65", THEN conjunct1, THEN mp, OF h1]
  have a: "\<exists>pd'. addTuple SlottedPage_new (replicate 20 65) = Inr (True, pd') \<and>
      slot_at pd' 0 = \<lparr>empty_f = False, offset = 3072, length_f = 20\<rparr> \<and>
      take 20 (drop 3072 pd') = replicate 20 65 \<and> built pd' 1"
    by (auto simp: ao)
  from t [of "replicate 2000 65", THEN conjunct2, THEN conjunct1, THEN mp, OF h2] z
  have c: "\<exists>pd'. addTuple SlottedPage_new (replicate 2000 65) = Inr (False, pd') \<and>
      slot_at pd' 0 = never_used \<and> built pd' 0"
    by (auto simp: slot_at_SlottedPage_new)
  from a obtain pd1 where
    a1: "addTuple SlottedPage_new (replicate 20 65) = Inr (True, pd1)"
    and s1: "slot_at pd1 0 = \<lparr>empty_f = False, offset = 3072, length_f = 20\<rparr>"
    and b1: "built pd1 1"
    by blast
  let ?pd = "deleteTuple pd1 0"
  have bd: "built ?pd 1" by (rule built_deleteTuple [OF b1])
  have ne: "\<not> get_empty pd1 0" using s1 by (simp add: slot_at_def)
  have sd: "slot_at ?pd 0 = \<lparr>empty_f = True, offset = 3072, length_f = 20\<rparr>"
    using ne z by (simp add: deleteTuple_def slot_at_set_empty [OF z builtD(1) [OF b1]] s1)
  have f: "first_emptied_fit ?pd (length (replicate 10 (66 :: byte))) 0"
    using z by (simp add: first_emptied_fit_def emptied_fits_def sd INVALID_VALUE_def)
  from addTuple_priority_and_offset [OF bd, of "replicate 10 66", THEN conjunct2, THEN conjunct2,
      THEN conjunct1, THEN spec, THEN mp, OF f]
  obtain pd2 where
    a2: "addTuple ?pd (replicate 10 66) = Inr (True, pd2)"
    and s2: "slot_at pd2 0 = \<lparr>empty_f = False, offset = 3072, length_f = 20\<rparr>"
    and r2: "take 10 (drop 3072 pd2) = replicate 10 66" and b2: "built pd2 1"
    by (auto simp: sd)
  from f have f': "first_emptied_fit ?pd 10 0" by simp
  have d: "\<exists>pd' pd''. addTuple SlottedPage_new (replicate 20 65) = Inr (True, pd') \<and>
      built (deleteTuple pd' 0) 1 \<and> first_emptied_fit (deleteTuple pd' 0) 10 0 \<and>
      addTuple (deleteTuple pd' 0) (replicate 10 66) = Inr (True, pd'') \<and>
      slot_at pd'' 0 = \<lparr>empty_f = False, offset = 3072, length_f = 20\<rparr> \<and>
      take 10 (drop 3072 pd'') = replicate 10 66 \<and> built pd'' 1"
    by (rule exI [of _ pd1], rule exI [of _ pd2]) (intro conjI a1 bd f' a2 s2 r2 b2)
  from b none [of 20] ao a c d show ?thesis by (intro conjI)
qed

section \<open>The buffer manager and the insert operator\<close>

subsection \<open>Pages of the file\<close>

lemma page_block_le: "p < v \<Longrightarrow> p * PAGE_SIZE + PAGE_SIZE \<le> v * PAGE_SIZE"
  using mult_le_mono1 [of "Suc p" v PAGE_SIZE] by simp

lemma load_in_range:
  assumes "whole_pages sm" "unat p < unat (num_pages sm)"
  shows "load sm p = Inr (file_page sm p)" "length (file_page sm p) = PAGE_SIZE"
proof -
  have len: "length (fileStream sm) = unat (num_pages sm) * PAGE_SIZE"
    using assms(1) by (simp add: whole_pages_def)
  have fit: "unat p * PAGE_SIZE + PAGE_SIZE \<le> length (fileStream sm)"
    using page_block_le [OF assms(2)] len by simp
  have "\<not> num_pages sm \<le> ucast p"
    using assms(2) by (simp add: word_le_nat_alt unat_ucast_PageID)
  with fit show "load sm p = Inr (file_page sm p)"
    by (simp add: load_def file_page_def Let_def)
  from fit show "length (file_page sm p) = PAGE_SIZE"
    by (simp add: file_page_def)
qed

lemma write_at_inside:
  "pos + length bytes \<le> length file \<Longrightarrow>
     write_at file pos bytes = take pos file @ bytes @ drop (pos + length bytes) file"
  by (simp add: write_at_def)

lemma flush_keeps:
  assumes w: "whole_pages sm" and v: "unat v < unat (num_pages sm)" and l: "length pg = PAGE_SIZE"
  shows "whole_pages (flush sm v pg)" "num_pages (flush sm v pg) = num_pages sm"
    "file_page (flush sm v pg) v = pg"
    "unat p < unat (num_pages sm) \<Longrightarrow> p \<noteq> v \<Longrightarrow> file_page (flush sm v pg) p = file_page sm p"
proof -
  let ?file = "fileStream sm"
  let ?pos = "unat v * PAGE_SIZE"
  have len: "length ?file = unat (num_pages sm) * PAGE_SIZE"
    using w by (simp add: whole_pages_def)
  have fit: "?pos + PAGE_SIZE \<le> length ?file"
    using page_block_le [OF v] len by simp
  have f: "fileStream (flush sm v pg) = take ?pos ?file @ pg @ drop (?pos + PAGE_SIZE) ?file"
    using fit l by (simp add: flush_def write_at_inside)
  show "num_pages (flush sm v pg) = num_pages sm" by (simp add: flush_def)
  then show "whole_pages (flush sm v pg)"
    using fit l len by (simp add: whole_pages_def f)
  show "file_page (flush sm v pg) v = pg"
    using fit l by (simp add: file_page_def f)
  assume p: "unat p < unat (num_pages sm)" and ne: "p \<noteq> v"
  from ne have "unat p \<noteq> unat v" by (simp add: word_unat_eq_iff)
  then consider (below) "unat p < unat v" | (above) "unat v < unat p" by linarith
  then show "file_page (flush sm v pg) p = file_page sm p"
  proof cases
    case below
    have b: "unat p * PAGE_SIZE + PAGE_SIZE \<le> ?pos" by (rule page_block_le [OF below])
    then have "take PAGE_SIZE (drop (unat p * PAGE_SIZE) (take ?pos ?file @ pg @ drop (?pos + PAGE_SIZE) ?file))
        = take PAGE_SIZE (drop (unat p * PAGE_SIZE) (take ?pos ?file))"
      using fit by simp
    also have "\<dots> = take PAGE_SIZE (drop (unat p * PAGE_SIZE) ?file)"
      using b by (simp add: drop_take min_def)
    finally show ?thesis by (simp add: file_page_def f)
  next
    case above
    have a: "?pos + PAGE_SIZE \<le> unat p * PAGE_SIZE" by (rule page_block_le [OF above])
    have vp: "?pos \<le> unat p * PAGE_SIZE" by (rule order_trans [OF le_add1 a])
    have "drop (unat p * PAGE_SIZE) (take ?pos ?file @ pg @ drop (?pos + PAGE_SIZE) ?file)
        = drop (unat p * PAGE_SIZE - ?pos - PAGE_SIZE) (drop (?pos + PAGE_SIZE) ?file)"
      using fit l a vp by (simp add: min_def del: drop_drop mult_le_cancel2)
    also have "\<dots> = drop (unat p * PAGE_SIZE) ?file"
      using a by (simp del: mult_le_cancel2)
    finally have "drop (unat p * PAGE_SIZE) (take ?pos ?file @ pg @ drop (?pos + PAGE_SIZE) ?file)
        = drop (unat p * PAGE_SIZE) ?file" .
    then show ?thesis by (simp add: file_page_def f)
  qed
qed

lemma extend_keeps:
  assumes w: "whole_pages sm" and n: "unat (num_pages sm) \<le> 65535"
  shows "whole_pages (StorageManager_extend sm)"
    "unat (num_pages (StorageManager_extend sm)) = unat (num_pages sm) + 1"
    "unat p < unat (num_pages sm) \<Longrightarrow> file_page (StorageManager_extend sm) p = file_page sm p"
    "unat p = unat (num_pages sm) \<Longrightarrow> file_page (StorageManager_extend sm) p = SlottedPage_new"
proof -
  have len: "length (fileStream sm) = unat (num_pages sm) * PAGE_SIZE"
    using w by (simp add: whole_pages_def)
  show s: "unat (num_pages (StorageManager_extend sm)) = unat (num_pages sm) + 1"
    using n by (simp add: StorageManager_extend_def unat_word_ariths)
  show "whole_pages (StorageManager_extend sm)"
    unfolding whole_pages_def s by (simp add: StorageManager_extend_def len)
  {
    assume "unat p < unat (num_pages sm)"
    from page_block_le [OF this] len
    show "file_page (StorageManager_extend sm) p = file_page sm p"
      by (simp add: file_page_def StorageManager_extend_def)
  next
    assume "unat p = unat (num_pages sm)"
    then show "file_page (StorageManager_extend sm) p = SlottedPage_new"
      by (simp add: file_page_def StorageManager_extend_def len)
  }
qed

subsection \<open>The policy inside the buffer manager\<close>

lemma tracked_touch: "tracked (snd (touch p s)) = insert p (tracked s)"
proof -
  have "set (unlink p xs) \<union> {p} = insert p (set xs)" if "p \<in> set xs" for xs
    using that by (induction xs) auto
  then show ?thesis
    by (auto simp: touch_def tracked_def)
qed

lemma evict_unfixed_page:
  assumes d: "distinct (fifo_queue s @ lru_queue s)"
    and e: "evict st s = Inr (v, s')"
  shows "v \<in> tracked s" "tracked s' = tracked s - {v}"
    "distinct (fifo_queue s' @ lru_queue s')" "st v = Some PAGE_UNFIXED"
proof -
  from evict_InrD [OF e] consider
    (fifo) pre post where "fifo_queue s = pre @ v # post" "s' = s\<lparr>fifo_queue := pre @ post\<rparr>"
      "is_unfixed st v"
  | (lru) pre post where "lru_queue s = pre @ v # post" "s' = s\<lparr>lru_queue := pre @ post\<rparr>"
      "is_unfixed st v"
    by blast
  then have "v \<in> tracked s \<and> tracked s' = tracked s - {v} \<and>
    distinct (fifo_queue s' @ lru_queue s') \<and> st v = Some PAGE_UNFIXED"
  proof cases
    case fifo
    with d show ?thesis by (auto simp: tracked_def is_unfixed_def)
  next
    case lru
    with d show ?thesis by (auto simp: tracked_def is_unfixed_def)
  qed
  then show "v \<in> tracked s" "tracked s' = tracked s - {v}"
    "distinct (fifo_queue s' @ lru_queue s')" "st v = Some PAGE_UNFIXED"
    by simp_all
qed

lemma evict_succeeds:
  assumes "tracked s \<noteq> {}" "\<forall>p \<in> tracked s. st p = Some PAGE_UNFIXED"
  shows "\<exists>v s'. evict st s = Inr (v, s')"
proof -
  from assms have "\<not> (\<forall>p \<in> tracked s. \<not> is_unfixed st p)"
    by (auto simp: is_unfixed_def)
  then have "evict st s \<noteq> Inl BufferFull" by (simp add: evict_BufferFull_iff)
  with evict_cases [of st s] show ?thesis by blast
qed

subsection \<open>Parts of a well-formed state\<close>

lemma bm_ok_resident:
  assumes "bm_ok F bm" "frame_of_page bm p = Some f"
  shows "f < length (buffer_pool bm)" "f \<notin> set (empty_slots bm)"
    "unat p < unat (num_pages (storage_manager bm))"
    "page_state bm p = Some (if p \<in> F then PAGE_EXCLUSIVE else PAGE_UNFIXED)"
    "\<exists>fr. buffer_pool bm ! f = Some fr \<and> frame_page_id fr = p \<and> length (page fr) = PAGE_SIZE \<and>
       mutex fr = (if p \<in> F then LockedExclusive else Unlocked)"
  using assms unfolding bm_ok_def by blast+

lemma bm_ok_parts:
  assumes "bm_ok F bm"
  shows "whole_pages (storage_manager bm)" "unat (num_pages (storage_manager bm)) \<le> 65536"
    "dom (page_state bm) = tracked (policy bm)" "dom (frame_of_page bm) = tracked (policy bm)"
    "distinct (fifo_queue (policy bm) @ lru_queue (policy bm))" "F \<subseteq> tracked (policy bm)"
    "distinct (empty_slots bm)" "\<forall>f. f \<in> set (empty_slots bm) \<longrightarrow> f < length (buffer_pool bm)"
    "empty_slots bm = [] \<longrightarrow> tracked (policy bm) \<noteq> {}"
  using assms unfolding bm_ok_def by blast+

lemma bm_ok_frames_differ:
  assumes "bm_ok F bm" "frame_of_page bm p = Some f" "frame_of_page bm q = Some f"
  shows "p = q"
  using bm_ok_resident(5) [OF assms(1,2)] bm_ok_resident(5) [OF assms(1,3)] by auto

lemma bm_ok_not_resident:
  assumes "bm_ok F bm"
  shows "page_state bm p = None \<longleftrightarrow> frame_of_page bm p = None"
  using bm_ok_parts(3,4) [OF assms] by (metis domIff)

lemma frame_at_resident:
  assumes "bm_ok F bm" "frame_of_page bm p = Some f"
  shows "\<exists>fr. frame_at bm f = Some fr \<and> buffer_pool bm ! f = Some fr \<and> frame_page_id fr = p \<and>
    length (page fr) = PAGE_SIZE \<and> mutex fr = (if p \<in> F then LockedExclusive else Unlocked) \<and>
    current_page bm p = page fr"
  using bm_ok_resident(1,5) [OF assms] assms(2)
  by (auto simp: frame_at_def current_page_def)

lemma current_page_not_resident:
  "frame_of_page bm p = None \<Longrightarrow> current_page bm p = file_page (storage_manager bm) p"
  by (simp add: current_page_def)

lemma bm_okI:
  assumes "whole_pages (storage_manager bm)" "unat (num_pages (storage_manager bm)) \<le> 65536"
    "dom (page_state bm) = tracked (policy bm)" "dom (frame_of_page bm) = tracked (policy bm)"
    "distinct (fifo_queue (policy bm) @ lru_queue (policy bm))" "F \<subseteq> tracked (policy bm)"
    "\<And>p f. frame_of_page bm p = Some f \<Longrightarrow>
        f < length (buffer_pool bm) \<and> f \<notin> set (empty_slots bm) \<and>
        unat p < unat (num_pages (storage_manager bm)) \<and>
        page_state bm p = Some (if p \<in> F then PAGE_EXCLUSIVE else PAGE_UNFIXED) \<and>
        (\<exists>fr. buffer_pool bm ! f = Some fr \<and> frame_page_id fr = p \<and>
           length (page fr) = PAGE_SIZE \<and>
           mutex fr = (if p \<in> F then LockedExclusive else Unlocked))"
    "distinct (empty_slots bm)" "\<And>f. f \<in> set (empty_slots bm) \<Longrightarrow> f < length (buffer_pool bm)"
    "empty_slots bm = [] \<Longrightarrow> tracked (policy bm) \<noteq> {}"
  shows "bm_ok F bm"
  unfolding bm_ok_def using assms by blast

subsection \<open>Making room\<close>

lemma make_room_ok:
  assumes ok: "bm_ok {} bm"
  shows "\<exists>bm1. make_room bm = Inr bm1 \<and> bm_ok {} bm1 \<and> empty_slots bm1 \<noteq> [] \<and>
     num_pages (storage_manager bm1) = num_pages (storage_manager bm) \<and>
     (\<forall>p. frame_of_page bm p = None \<longrightarrow> frame_of_page bm1 p = None) \<and>
     (\<forall>p f. frame_of_page bm1 p = Some f \<longrightarrow>
        frame_of_page bm p = Some f \<and> current_page bm1 p = current_page bm p) \<and>
     (\<forall>p. unat p < unat (num_pages (storage_manager bm)) \<longrightarrow>
        file_page (storage_manager bm1) p = file_page (storage_manager bm) p \<or>
        (frame_of_page bm p \<noteq> None \<and> file_page (storage_manager bm1) p = current_page bm p))"
proof (cases "empty_slots bm = []")
  case False
  then have "make_room bm = Inr bm" by (simp add: make_room_def)
  with ok False show ?thesis by auto
next
  case True
  note parts = bm_ok_parts [OF ok]
  from parts(9) True have ne: "tracked (policy bm) \<noteq> {}" by simp
  have unf: "\<forall>p \<in> tracked (policy bm). page_state bm p = Some PAGE_UNFIXED"
  proof
    fix p assume "p \<in> tracked (policy bm)"
    with parts(4) obtain f where "frame_of_page bm p = Some f" by auto
    from bm_ok_resident(4) [OF ok this] show "page_state bm p = Some PAGE_UNFIXED" by simp
  qed
  from evict_succeeds [OF ne unf] obtain v pol where
    ev: "evict (page_state bm) (policy bm) = Inr (v, pol)" by blast
  note evp = evict_unfixed_page [OF parts(5) ev]
  from evp(1) parts(4) obtain f where f: "frame_of_page bm v = Some f" by auto
  from frame_at_resident [OF ok f] obtain fr where
    fr: "frame_at bm f = Some fr" "buffer_pool bm ! f = Some fr" "frame_page_id fr = v"
      "length (page fr) = PAGE_SIZE" "current_page bm v = page fr"
    by auto
  note res = bm_ok_resident [OF ok f]
  define sm1 where "sm1 = (if frame_is_dirty fr
     then flush (storage_manager bm) v (page fr) else storage_manager bm)"
  define bm1 where "bm1 = bm\<lparr>storage_manager := sm1, policy := pol,
     page_state := (page_state bm)(v := None), frame_of_page := (frame_of_page bm)(v := None),
     empty_slots := empty_slots bm @ [f]\<rparr>"
  have mr: "make_room bm = Inr bm1"
    by (simp add: make_room_def True ev subscript_def f fr(1) bm1_def sm1_def)
  note fk = flush_keeps [OF parts(1) res(3) fr(4)]
  have np: "num_pages sm1 = num_pages (storage_manager bm)"
    by (simp add: sm1_def fk(2))
  have wp: "whole_pages sm1"
    using parts(1) fk(1) by (simp add: sm1_def)
  have fp: "file_page sm1 p = file_page (storage_manager bm) p \<or>
        (frame_of_page bm p \<noteq> None \<and> file_page sm1 p = current_page bm p)"
    if "unat p < unat (num_pages (storage_manager bm))" for p
  proof (cases "frame_is_dirty fr")
    case False
    then show ?thesis by (simp add: sm1_def)
  next
    case d: True
    show ?thesis
    proof (cases "p = v")
      case True
      with d fk(3) f fr(5) show ?thesis by (simp add: sm1_def)
    next
      case False
      with d fk(4) [OF that] show ?thesis by (simp add: sm1_def)
    qed
  qed
  have okay: "bm_ok {} bm1"
  proof (rule bm_okI)
    show "whole_pages (storage_manager bm1)" using wp by (simp add: bm1_def)
    show "unat (num_pages (storage_manager bm1)) \<le> 65536"
      using parts(2) np by (simp add: bm1_def)
    show "dom (page_state bm1) = tracked (policy bm1)"
      using parts(3) evp(2) by (simp add: bm1_def)
    show "dom (frame_of_page bm1) = tracked (policy bm1)"
      using parts(4) evp(2) by (simp add: bm1_def)
    show "distinct (fifo_queue (policy bm1) @ lru_queue (policy bm1))"
      using evp(3) by (simp add: bm1_def)
    show "{} \<subseteq> tracked (policy bm1)" by simp
    show "distinct (empty_slots bm1)" using True by (simp add: bm1_def)
    show "f' < length (buffer_pool bm1)" if "f' \<in> set (empty_slots bm1)" for f'
      using that True res(1) by (simp add: bm1_def)
    show "tracked (policy bm1) \<noteq> {}" if "empty_slots bm1 = []"
      using that by (simp add: bm1_def)
    fix p f' assume "frame_of_page bm1 p = Some f'"
    then have pv: "p \<noteq> v" and pf: "frame_of_page bm p = Some f'"
      by (auto simp: bm1_def split: if_splits)
    note r = bm_ok_resident [OF ok pf]
    have "f' \<noteq> f" using bm_ok_frames_differ [OF ok pf] f pv by auto
    with r pv True np
    show "f' < length (buffer_pool bm1) \<and> f' \<notin> set (empty_slots bm1) \<and>
        unat p < unat (num_pages (storage_manager bm1)) \<and>
        page_state bm1 p = Some (if p \<in> {} then PAGE_EXCLUSIVE else PAGE_UNFIXED) \<and>
        (\<exists>fr. buffer_pool bm1 ! f' = Some fr \<and> frame_page_id fr = p \<and>
           length (page fr) = PAGE_SIZE \<and>
           mutex fr = (if p \<in> {} then LockedExclusive else Unlocked))"
      by (simp add: bm1_def)
  qed
  have keep: "\<forall>p f'. frame_of_page bm1 p = Some f' \<longrightarrow>
        frame_of_page bm p = Some f' \<and> current_page bm1 p = current_page bm p"
    by (auto simp: bm1_def current_page_def frame_at_def split: if_splits)
  have gone: "\<forall>p. frame_of_page bm p = None \<longrightarrow> frame_of_page bm1 p = None"
    by (simp add: bm1_def)
  have "empty_slots bm1 \<noteq> []" by (simp add: bm1_def)
  moreover have "num_pages (storage_manager bm1) = num_pages (storage_manager bm)"
    using np by (simp add: bm1_def)
  moreover have "\<forall>p. unat p < unat (num_pages (storage_manager bm)) \<longrightarrow>
        file_page (storage_manager bm1) p = file_page (storage_manager bm) p \<or>
        (frame_of_page bm p \<noteq> None \<and> file_page (storage_manager bm1) p = current_page bm p)"
    using fp by (simp add: bm1_def)
  ultimately show ?thesis using mr okay keep gone by blast
qed

subsection \<open>Fixing a page exclusively\<close>

lemma load_page_locked_ok:
  assumes ok: "bm_ok {} bm" and nr: "frame_of_page bm pid = None"
    and r: "unat pid < unat (num_pages (storage_manager bm))"
  shows "\<exists>f bm'. load_page_locked bm pid True = Inr (f, bm') \<and> bm_ok {pid} bm' \<and>
     frame_of_page bm' pid = Some f \<and> current_page bm' pid = current_page bm pid \<and>
     others_kept bm bm'"
proof -
  from make_room_ok [OF ok] obtain bm1 where
    mr: "make_room bm = Inr bm1" and ok1: "bm_ok {} bm1" and es: "empty_slots bm1 \<noteq> []"
    and np: "num_pages (storage_manager bm1) = num_pages (storage_manager bm)"
    and gone: "\<forall>p. frame_of_page bm p = None \<longrightarrow> frame_of_page bm1 p = None"
    and keep: "\<forall>p f. frame_of_page bm1 p = Some f \<longrightarrow>
        frame_of_page bm p = Some f \<and> current_page bm1 p = current_page bm p"
    and fp: "\<forall>p. unat p < unat (num_pages (storage_manager bm)) \<longrightarrow>
        file_page (storage_manager bm1) p = file_page (storage_manager bm) p \<or>
        (frame_of_page bm p \<noteq> None \<and> file_page (storage_manager bm1) p = current_page bm p)"
    by blast
  note parts = bm_ok_parts [OF ok1]
  let ?sm = "storage_manager bm1"
  define slot where "slot = last (empty_slots bm1)"
  have slot_in: "slot \<in> set (empty_slots bm1)" using es by (simp add: slot_def)
  with parts(8) have slot_lt: "slot < length (buffer_pool bm1)" by blast
  have slot_out: "slot \<notin> set (butlast (empty_slots bm1))"
    using parts(7) es by (metis append_butlast_last_id distinct_butlast not_distinct_conv_prefix slot_def)
  have r1: "unat pid < unat (num_pages ?sm)" using r np by simp
  have no_ext: "\<not> getNumPages ?sm \<le> ucast pid"
    using r1 by (simp add: getNumPages_def word_le_nat_alt unat_ucast_PageID)
  note ld = load_in_range [OF parts(1) r1]
  have nr1: "frame_of_page bm1 pid = None" using gone nr by blast
  then have nt: "pid \<notin> tracked (policy bm1)" using parts(4) by (metis domIff)
  define fr where "fr = \<lparr>frame_page_id = pid, frame_is_dirty = False, page = file_page ?sm pid,
     mutex = LockedExclusive\<rparr>"
  define bm' where "bm' = bm1\<lparr>storage_manager := ?sm,
     empty_slots := butlast (empty_slots bm1),
     buffer_pool := (buffer_pool bm1)[slot := Some fr],
     page_state := (page_state bm1)(pid \<mapsto> PAGE_EXCLUSIVE),
     frame_of_page := (frame_of_page bm1)(pid \<mapsto> slot),
     policy := snd (touch pid (policy bm1))\<rparr>"
  have res: "load_page_locked bm pid True = Inr (slot, bm')"
    using no_ext slot_lt
    by (simp add: load_page_locked_def mr Let_def ld(1) slot_def [symmetric] bm'_def fr_def)
  have okay: "bm_ok {pid} bm'"
  proof (rule bm_okI)
    show "whole_pages (storage_manager bm')" using parts(1) by (simp add: bm'_def)
    show "unat (num_pages (storage_manager bm')) \<le> 65536" using parts(2) by (simp add: bm'_def)
    show "dom (page_state bm') = tracked (policy bm')"
      using parts(3) by (simp add: bm'_def tracked_touch)
    show "dom (frame_of_page bm') = tracked (policy bm')"
      using parts(4) by (simp add: bm'_def tracked_touch)
    show "distinct (fifo_queue (policy bm') @ lru_queue (policy bm'))"
      using touch_keeps_disjoint [OF parts(5)] by (simp add: bm'_def)
    show "{pid} \<subseteq> tracked (policy bm')" by (simp add: bm'_def tracked_touch)
    show "distinct (empty_slots bm')" using parts(7) by (simp add: bm'_def distinct_butlast)
    show "f < length (buffer_pool bm')" if "f \<in> set (empty_slots bm')" for f
      using that parts(8) by (auto simp: bm'_def dest: in_set_butlastD)
    show "tracked (policy bm') \<noteq> {}" if "empty_slots bm' = []"
      by (simp add: bm'_def tracked_touch)
    fix p f assume pf: "frame_of_page bm' p = Some f"
    show "f < length (buffer_pool bm') \<and> f \<notin> set (empty_slots bm') \<and>
        unat p < unat (num_pages (storage_manager bm')) \<and>
        page_state bm' p = Some (if p \<in> {pid} then PAGE_EXCLUSIVE else PAGE_UNFIXED) \<and>
        (\<exists>fr. buffer_pool bm' ! f = Some fr \<and> frame_page_id fr = p \<and>
           length (page fr) = PAGE_SIZE \<and>
           mutex fr = (if p \<in> {pid} then LockedExclusive else Unlocked))"
    proof (cases "p = pid")
      case True
      with pf have "f = slot" by (simp add: bm'_def)
      with True slot_lt slot_out r1 ld(2) show ?thesis
        by (simp add: bm'_def fr_def)
    next
      case False
      with pf have pf1: "frame_of_page bm1 p = Some f" by (simp add: bm'_def)
      note r = bm_ok_resident [OF ok1 pf1]
      from r(2) slot_in have "f \<noteq> slot" by auto
      with r False show ?thesis
        by (auto simp: bm'_def dest: in_set_butlastD)
    qed
  qed
  have fop: "frame_of_page bm' pid = Some slot" by (simp add: bm'_def)
  have cur': "current_page bm' pid = file_page ?sm pid"
    using slot_lt by (simp add: current_page_def bm'_def frame_at_def fr_def)
  have cur: "current_page bm pid = file_page (storage_manager bm) pid"
    by (rule current_page_not_resident [OF nr])
  have same: "file_page ?sm pid = file_page (storage_manager bm) pid"
    using fp r nr by auto
  have cp: "current_page bm' pid = current_page bm pid" by (simp add: cur' cur same)
  have others: "others_kept bm bm'"
    unfolding others_kept_def
  proof (intro conjI allI impI)
    show "num_pages (storage_manager bm') = num_pages (storage_manager bm)"
      using np by (simp add: bm'_def)
    fix p :: PageID assume p: "unat p < unat (num_pages (storage_manager bm))"
    from fp p show "file_page (storage_manager bm') p = file_page (storage_manager bm) p \<or>
         file_page (storage_manager bm') p = current_page bm p"
      by (auto simp: bm'_def)
    show "current_page bm' p = current_page bm p \<or>
         current_page bm' p = file_page (storage_manager bm) p"
    proof (cases "p = pid")
      case True
      with cp show ?thesis by simp
    next
      case False
      show ?thesis
      proof (cases "frame_of_page bm1 p")
        case None
        with False have "current_page bm' p = file_page ?sm p"
          by (simp add: current_page_def bm'_def)
        with fp p show ?thesis by auto
      next
        case (Some f)
        from bm_ok_resident(2) [OF ok1 Some] slot_in have "f \<noteq> slot" by auto
        with False Some have "current_page bm' p = current_page bm1 p"
          by (simp add: current_page_def bm'_def frame_at_def)
        with keep Some show ?thesis by auto
      qed
    qed
  qed
  from res okay fop cp others show ?thesis by blast
qed

lemma others_kept_refl: "others_kept bm bm"
  by (simp add: others_kept_def)

lemma fix_page_ok:
  assumes ok: "bm_ok {} bm" and r: "unat pid < unat (num_pages (storage_manager bm))"
  shows "\<exists>f bm'. fix_page bm pid True = Some (Inr (f, bm')) \<and> bm_ok {pid} bm' \<and>
     frame_of_page bm' pid = Some f \<and> current_page bm' pid = current_page bm pid \<and>
     others_kept bm bm'"
proof (cases "frame_of_page bm pid")
  case None
  then have "page_state bm pid = None" using bm_ok_not_resident [OF ok] by simp
  then have "fix_page bm pid True = Some (load_page_locked bm pid True)"
    by (subst fix_page.simps) simp
  with load_page_locked_ok [OF ok None r] show ?thesis by auto
next
  case (Some f)
  note parts = bm_ok_parts [OF ok]
  note rs = bm_ok_resident [OF ok Some]
  from frame_at_resident [OF ok Some] obtain fr where
    fr: "frame_at bm f = Some fr" "buffer_pool bm ! f = Some fr" "frame_page_id fr = pid"
      "length (page fr) = PAGE_SIZE" "mutex fr = Unlocked" "current_page bm pid = page fr"
    by auto
  from rs(4) have st: "page_state bm pid = Some PAGE_UNFIXED" by simp
  define bm' where "bm' = bm\<lparr>frame_of_page := frame_of_page bm,
     buffer_pool := (buffer_pool bm)[f := Some (fr\<lparr>mutex := LockedExclusive\<rparr>)],
     page_state := (page_state bm)(pid \<mapsto> PAGE_EXCLUSIVE),
     policy := snd (touch pid (policy bm))\<rparr>"
  have res: "fix_page bm pid True = Some (Inr (f, bm'))"
    by (subst fix_page.simps) (simp add: st subscript_def Some fr(1,5) bm'_def)
  from Some parts(4) have tr: "pid \<in> tracked (policy bm)" by auto
  have okay: "bm_ok {pid} bm'"
  proof (rule bm_okI)
    show "whole_pages (storage_manager bm')" using parts(1) by (simp add: bm'_def)
    show "unat (num_pages (storage_manager bm')) \<le> 65536" using parts(2) by (simp add: bm'_def)
    show "dom (page_state bm') = tracked (policy bm')"
      using parts(3) tr by (auto simp: bm'_def tracked_touch)
    show "dom (frame_of_page bm') = tracked (policy bm')"
      using parts(4) tr by (auto simp: bm'_def tracked_touch)
    show "distinct (fifo_queue (policy bm') @ lru_queue (policy bm'))"
      using touch_keeps_disjoint [OF parts(5)] by (simp add: bm'_def)
    show "{pid} \<subseteq> tracked (policy bm')" by (simp add: bm'_def tracked_touch)
    show "distinct (empty_slots bm')" using parts(7) by (simp add: bm'_def)
    show "f' < length (buffer_pool bm')" if "f' \<in> set (empty_slots bm')" for f'
      using that parts(8) by (simp add: bm'_def)
    show "tracked (policy bm') \<noteq> {}" if "empty_slots bm' = []"
      by (simp add: bm'_def tracked_touch)
    fix p f' assume pf: "frame_of_page bm' p = Some f'"
    then have pf0: "frame_of_page bm p = Some f'" by (simp add: bm'_def)
    note r' = bm_ok_resident [OF ok pf0]
    show "f' < length (buffer_pool bm') \<and> f' \<notin> set (empty_slots bm') \<and>
        unat p < unat (num_pages (storage_manager bm')) \<and>
        page_state bm' p = Some (if p \<in> {pid} then PAGE_EXCLUSIVE else PAGE_UNFIXED) \<and>
        (\<exists>fr. buffer_pool bm' ! f' = Some fr \<and> frame_page_id fr = p \<and>
           length (page fr) = PAGE_SIZE \<and>
           mutex fr = (if p \<in> {pid} then LockedExclusive else Unlocked))"
    proof (cases "p = pid")
      case True
      with pf0 Some have "f' = f" by simp
      with True rs fr show ?thesis by (simp add: bm'_def)
    next
      case False
      then have "f' \<noteq> f" using bm_ok_frames_differ [OF ok pf0] Some by auto
      with r' False show ?thesis by (simp add: bm'_def)
    qed
  qed
  have fop: "frame_of_page bm' pid = Some f" using Some by (simp add: bm'_def)
  have cur: "current_page bm' p = current_page bm p" for p
  proof (cases "frame_of_page bm p")
    case None
    then show ?thesis by (simp add: current_page_def bm'_def)
  next
    case s: (Some f')
    show ?thesis
    proof (cases "f' = f")
      case True
      with s fr(1) rs(1) show ?thesis
        by (simp add: current_page_def bm'_def frame_at_def)
    next
      case False
      with s show ?thesis by (simp add: current_page_def bm'_def frame_at_def)
    qed
  qed
  have "others_kept bm bm'"
    by (simp add: others_kept_def cur) (simp add: bm'_def)
  with res okay fop cur show ?thesis by blast
qed

subsection \<open>Writing the page and unfixing\<close>

lemma unfix_after_write_ok:
  assumes ok: "bm_ok {pid} bm" and f: "frame_of_page bm pid = Some f"
    and l: "length pg = PAGE_SIZE"
  shows "\<exists>bm'. unfix_page (set_frame_page bm f pg) f d = Inr bm' \<and> bm_ok {} bm' \<and>
     storage_manager bm' = storage_manager bm \<and> frame_of_page bm' = frame_of_page bm \<and>
     current_page bm' pid = pg \<and>
     (\<forall>p. p \<noteq> pid \<longrightarrow> current_page bm' p = current_page bm p) \<and>
     (\<exists>fr. frame_at bm' f = Some fr \<and> (d \<longrightarrow> frame_is_dirty fr))"
proof -
  note parts = bm_ok_parts [OF ok]
  note rs = bm_ok_resident [OF ok f]
  from frame_at_resident [OF ok f] obtain fr where
    fr: "frame_at bm f = Some fr" "buffer_pool bm ! f = Some fr" "frame_page_id fr = pid"
      "mutex fr = LockedExclusive"
    by auto
  define fr1 where "fr1 = fr\<lparr>page := pg\<rparr>"
  define bm1 where "bm1 = bm\<lparr>buffer_pool := (buffer_pool bm)[f := Some fr1]\<rparr>"
  have w: "set_frame_page bm f pg = bm1"
    by (simp add: set_frame_page_def fr(1) bm1_def fr1_def)
  have fa1: "frame_at bm1 f = Some fr1"
    using rs(1) by (simp add: frame_at_def bm1_def)
  define fr2 where "fr2 = (if d then fr1\<lparr>frame_is_dirty := True\<rparr> else fr1)\<lparr>mutex := Unlocked\<rparr>"
  define bm' where "bm' = bm1\<lparr>page_state := (page_state bm1)(pid \<mapsto> PAGE_UNFIXED),
     buffer_pool := (buffer_pool bm1)[f := Some fr2]\<rparr>"
  have st: "page_state bm1 pid = Some PAGE_EXCLUSIVE" using rs(4) by (simp add: bm1_def)
  have pid1: "frame_page_id (if d then fr1\<lparr>frame_is_dirty := True\<rparr> else fr1) = pid"
    using fr(3) by (simp add: fr1_def)
  have res: "unfix_page (set_frame_page bm f pg) f d = Inr bm'"
    unfolding w
    by (simp add: unfix_page_def fa1 Let_def pid1 subscript_def st bm'_def fr2_def unlock_def)
  have pool: "buffer_pool bm' = (buffer_pool bm)[f := Some fr2]"
    by (simp add: bm'_def bm1_def)
  have fr2p: "frame_page_id fr2 = pid" "page fr2 = pg" "mutex fr2 = Unlocked"
    "d \<longrightarrow> frame_is_dirty fr2"
    using fr(3) by (simp_all add: fr2_def fr1_def)
  from parts(6) parts(3) have pd: "pid \<in> dom (page_state bm)" by auto
  have okay: "bm_ok {} bm'"
  proof (rule bm_okI)
    show "whole_pages (storage_manager bm')" using parts(1) by (simp add: bm'_def bm1_def)
    show "unat (num_pages (storage_manager bm')) \<le> 65536"
      using parts(2) by (simp add: bm'_def bm1_def)
    show "dom (page_state bm') = tracked (policy bm')"
      using parts(3) pd by (auto simp: bm'_def bm1_def)
    show "dom (frame_of_page bm') = tracked (policy bm')"
      using parts(4) by (simp add: bm'_def bm1_def)
    show "distinct (fifo_queue (policy bm') @ lru_queue (policy bm'))"
      using parts(5) by (simp add: bm'_def bm1_def)
    show "{} \<subseteq> tracked (policy bm')" by simp
    show "distinct (empty_slots bm')" using parts(7) by (simp add: bm'_def bm1_def)
    show "f' < length (buffer_pool bm')" if "f' \<in> set (empty_slots bm')" for f'
      using that parts(8) by (simp add: bm'_def bm1_def)
    show "tracked (policy bm') \<noteq> {}" if "empty_slots bm' = []"
      using that parts(9) by (simp add: bm'_def bm1_def)
    fix p f' assume "frame_of_page bm' p = Some f'"
    then have pf0: "frame_of_page bm p = Some f'" by (simp add: bm'_def bm1_def)
    note r' = bm_ok_resident [OF ok pf0]
    show "f' < length (buffer_pool bm') \<and> f' \<notin> set (empty_slots bm') \<and>
        unat p < unat (num_pages (storage_manager bm')) \<and>
        page_state bm' p = Some (if p \<in> {} then PAGE_EXCLUSIVE else PAGE_UNFIXED) \<and>
        (\<exists>fr. buffer_pool bm' ! f' = Some fr \<and> frame_page_id fr = p \<and>
           length (page fr) = PAGE_SIZE \<and>
           mutex fr = (if p \<in> {} then LockedExclusive else Unlocked))"
    proof (cases "p = pid")
      case True
      with pf0 f have "f' = f" by simp
      with True rs fr2p l show ?thesis by (simp add: bm'_def bm1_def)
    next
      case False
      then have "f' \<noteq> f" using bm_ok_frames_differ [OF ok pf0] f by auto
      with r' False show ?thesis by (simp add: bm'_def bm1_def)
    qed
  qed
  have fop: "frame_of_page bm' = frame_of_page bm" by (simp add: bm'_def bm1_def)
  have fa: "frame_at bm' f = Some fr2" using rs(1) by (simp add: frame_at_def pool)
  have cp: "current_page bm' pid = pg"
    using f fa fr2p by (simp add: current_page_def fop)
  have sm: "storage_manager bm' = storage_manager bm" unfolding bm'_def bm1_def by simp
  have co: "current_page bm' p = current_page bm p" if "p \<noteq> pid" for p
  proof (cases "frame_of_page bm p")
    case None
    then show ?thesis by (simp add: current_page_def fop sm)
  next
    case (Some f')
    have "f' \<noteq> f"
    proof
      assume "f' = f"
      with f have "frame_of_page bm pid = Some f'" by simp
      from bm_ok_frames_differ [OF ok Some this] that show False by simp
    qed
    with Some show ?thesis by (simp add: current_page_def fop frame_at_def pool)
  qed
  have dirty: "\<exists>fr. frame_at bm' f = Some fr \<and> (d \<longrightarrow> frame_is_dirty fr)"
    using fa fr2p(4) by simp
  have others: "\<forall>p. p \<noteq> pid \<longrightarrow> current_page bm' p = current_page bm p"
    using co by simp
  show ?thesis
    by (rule exI [of _ bm']) (intro conjI res okay sm fop cp others dirty)
qed

subsection \<open>One attempt\<close>

lemma addTuple_length:
  assumes "length pd = PAGE_SIZE" "addTuple pd ser = Inr (added, pd')"
  shows "length pd' = PAGE_SIZE"
proof -
  from slot_cases [of pd "length ser"] consider
    (none) "no_slot pd (length ser)" | (some) k where "chosen_slot pd (length ser) k"
    by blast
  then show ?thesis
  proof cases
    case none
    from addTuple_no_slot [OF this] assms show ?thesis by simp
  next
    case some
    show ?thesis
    proof (cases "PAGE_SIZE \<le> tuple_offset pd k + length ser")
      case True
      from addTuple_no_space [OF some assms(1) True] assms(2) show ?thesis by auto
    next
      case fits: False
      show ?thesis
      proof (cases "metadata_size \<le> tuple_offset pd k")
        case True
        from addTuple_placed [OF some assms(1) _ True] fits assms(2) show ?thesis by auto
      next
        case False
        from addTuple_asserts [OF some assms(1)] fits False assms(2) show ?thesis by simp
      qed
    qed
  qed
qed

lemma accepts_result:
  assumes "accepts pd ser" "length pd = PAGE_SIZE"
  shows "\<exists>added pd'. addTuple pd ser = Inr (added, pd') \<and> length pd' = PAGE_SIZE"
proof -
  have "addTuple pd ser = Inl AssertionFailed \<or> (\<exists>added pd'. addTuple pd ser = Inr (added, pd'))"
    by (auto simp: addTuple_def Let_def)
  with assms(1) obtain added pd' where "addTuple pd ser = Inr (added, pd')"
    by (auto simp: accepts_def)
  with addTuple_length [OF assms(2) this] show ?thesis by blast
qed

lemma others_kept_trans_unfix:
  assumes "others_kept bm bm1" "storage_manager bm2 = storage_manager bm1"
    "\<forall>p. p \<noteq> pid \<longrightarrow> current_page bm2 p = current_page bm1 p"
  shows "num_pages (storage_manager bm2) = num_pages (storage_manager bm)"
    "\<forall>p. p \<noteq> pid \<and> unat p < unat (num_pages (storage_manager bm)) \<longrightarrow>
        (file_page (storage_manager bm2) p = file_page (storage_manager bm) p \<or>
         file_page (storage_manager bm2) p = current_page bm p) \<and>
        (current_page bm2 p = current_page bm p \<or>
         current_page bm2 p = file_page (storage_manager bm) p)"
  using assms unfolding others_kept_def by auto

lemma try_page_ok:
  assumes ok: "bm_ok {} bm" and r: "unat pid < unat (num_pages (storage_manager bm))"
    and ser: "Tuple_serialize fshow t = Inr s"
    and acc: "accepts (current_page bm pid) (bytes_of s)"
  shows "\<exists>added bm' pg'.
     try_page fshow t bm pid =
       Some (Inr (added, bm', [Fix pid True, AddTuple pid added, Unfix pid added])) \<and>
     addTuple (current_page bm pid) (bytes_of s) = Inr (added, pg') \<and>
     current_page bm' pid = pg' \<and> bm_ok {} bm' \<and>
     num_pages (storage_manager bm') = num_pages (storage_manager bm) \<and>
     (\<forall>p. p \<noteq> pid \<and> unat p < unat (num_pages (storage_manager bm)) \<longrightarrow>
        (file_page (storage_manager bm') p = file_page (storage_manager bm) p \<or>
         file_page (storage_manager bm') p = current_page bm p) \<and>
        (current_page bm' p = current_page bm p \<or>
         current_page bm' p = file_page (storage_manager bm) p)) \<and>
     (\<exists>f fr. frame_of_page bm' pid = Some f \<and> frame_at bm' f = Some fr \<and>
        (added \<longrightarrow> frame_is_dirty fr))"
proof -
  from fix_page_ok [OF ok r] obtain f bm1 where
    fx: "fix_page bm pid True = Some (Inr (f, bm1))" and ok1: "bm_ok {pid} bm1"
    and fop: "frame_of_page bm1 pid = Some f"
    and cur: "current_page bm1 pid = current_page bm pid"
    and oth: "others_kept bm bm1"
    by blast
  from frame_at_resident [OF ok1 fop] obtain fr where
    fr: "frame_at bm1 f = Some fr" "length (page fr) = PAGE_SIZE" "current_page bm1 pid = page fr"
    by auto
  from acc cur fr(3) have "accepts (page fr) (bytes_of s)" by simp
  from accepts_result [OF this fr(2)] obtain added pg' where
    ad: "addTuple (page fr) (bytes_of s) = Inr (added, pg')" and l: "length pg' = PAGE_SIZE"
    by blast
  from unfix_after_write_ok [OF ok1 fop l, of added] obtain bm2 where
    un: "unfix_page (set_frame_page bm1 f pg') f added = Inr bm2" and ok2: "bm_ok {} bm2"
    and sm: "storage_manager bm2 = storage_manager bm1"
    and fop2: "frame_of_page bm2 = frame_of_page bm1"
    and c2: "current_page bm2 pid = pg'"
    and co: "\<forall>p. p \<noteq> pid \<longrightarrow> current_page bm2 p = current_page bm1 p"
    and dirty: "\<exists>fr. frame_at bm2 f = Some fr \<and> (added \<longrightarrow> frame_is_dirty fr)"
    by blast
  have res: "try_page fshow t bm pid =
       Some (Inr (added, bm2, [Fix pid True, AddTuple pid added, Unfix pid added]))"
    by (simp add: try_page_def fx fr(1) addTuple_tuple_def ser ad un)
  note k = others_kept_trans_unfix [OF oth sm co]
  have ad': "addTuple (current_page bm pid) (bytes_of s) = Inr (added, pg')"
    using ad cur fr(3) by simp
  have dirty': "\<exists>f fr. frame_of_page bm2 pid = Some f \<and> frame_at bm2 f = Some fr \<and>
        (added \<longrightarrow> frame_is_dirty fr)"
    using dirty fop fop2 by auto
  show ?thesis
    by (rule exI [of _ added], rule exI [of _ bm2], rule exI [of _ pg'])
      (intro conjI res ad' c2 ok2 k dirty')
qed

subsection \<open>A fresh page\<close>

lemma chosen_slot_fresh:
  shows "chosen_slot SlottedPage_new n 0" "tuple_offset SlottedPage_new 0 = metadata_size"
proof -
  have z: "(0 :: nat) < MAX_SLOTS" by (simp add: MAX_SLOTS_def)
  show "tuple_offset SlottedPage_new 0 = metadata_size"
    by (simp add: tuple_offset_def slot_at_SlottedPage_new [OF z] never_used_def)
  show "chosen_slot SlottedPage_new n 0"
  proof (cases "n \<le> 65535")
    case True
    then show ?thesis by (rule chosen_slot_new_page(1))
  next
    case False
    have "\<not> reusable SlottedPage_new n j" if "j < MAX_SLOTS" for j
      using False by (simp add: reusable_def slot_at_SlottedPage_new [OF that] never_used_def INVALID_VALUE_def)
    moreover have "unused SlottedPage_new 0"
      by (simp add: unused_def slot_at_SlottedPage_new [OF z] never_used_def)
    ultimately show ?thesis using z by (simp add: chosen_slot_def)
  qed
qed

lemma addTuple_fresh_page:
  "\<exists>pd'. addTuple SlottedPage_new ser = Inr (metadata_size + length ser < PAGE_SIZE, pd') \<and>
     length pd' = PAGE_SIZE \<and>
     (metadata_size + length ser < PAGE_SIZE \<longrightarrow>
        slot_at pd' 0 = \<lparr>empty_f = False, offset = of_nat metadata_size,
                          length_f = of_nat (length ser)\<rparr> \<and>
        take (length ser) (drop metadata_size pd') = ser)"
proof (cases "metadata_size + length ser < PAGE_SIZE")
  case True
  have z: "(0 :: nat) < MAX_SLOTS" by (simp add: MAX_SLOTS_def)
  have fits: "tuple_offset SlottedPage_new 0 + length ser < PAGE_SIZE"
    using True by (simp add: chosen_slot_fresh(2))
  have area: "metadata_size \<le> tuple_offset SlottedPage_new 0"
    by (simp add: chosen_slot_fresh(2))
  have lf: "length_f (slot_at SlottedPage_new 0) = INVALID_VALUE"
    by (simp add: slot_at_SlottedPage_new [OF z] never_used_def)
  from addTuple_placed [OF chosen_slot_fresh(1) length_SlottedPage_new fits area]
  obtain pd' where p: "addTuple SlottedPage_new ser = Inr (True, pd')"
    "slot_at pd' 0 = \<lparr>empty_f = False, offset = of_nat metadata_size,
        length_f = of_nat (length ser)\<rparr>"
    "take (length ser) (drop metadata_size pd') = ser" "length pd' = PAGE_SIZE"
    unfolding chosen_slot_fresh(2) lf by auto
  with True show ?thesis by simp
next
  case False
  then have full: "PAGE_SIZE \<le> tuple_offset SlottedPage_new 0 + length ser"
    by (simp add: chosen_slot_fresh(2))
  from addTuple_no_space [OF chosen_slot_fresh(1) length_SlottedPage_new full]
  obtain pd' where "addTuple SlottedPage_new ser = Inr (False, pd')" "length pd' = PAGE_SIZE"
    by blast
  with False show ?thesis by simp
qed

lemma accepts_fresh_page: "accepts SlottedPage_new ser"
proof -
  from addTuple_fresh_page [of ser] obtain b pd' where "addTuple SlottedPage_new ser = Inr (b, pd')"
    by blast
  then show ?thesis by (simp add: accepts_def)
qed

subsection \<open>Extending the file\<close>

lemma BufferManager_extend_ok:
  assumes ok: "bm_ok {} bm" and n: "unat (num_pages (storage_manager bm)) \<le> 65535"
  shows "bm_ok {} (BufferManager_extend bm)"
    "unat (num_pages (storage_manager (BufferManager_extend bm)))
       = unat (num_pages (storage_manager bm)) + 1"
    "unat p < unat (num_pages (storage_manager bm)) \<Longrightarrow>
       file_page (storage_manager (BufferManager_extend bm)) p = file_page (storage_manager bm) p"
    "unat p < unat (num_pages (storage_manager bm)) \<Longrightarrow>
       current_page (BufferManager_extend bm) p = current_page bm p"
    "unat p = unat (num_pages (storage_manager bm)) \<Longrightarrow>
       file_page (storage_manager (BufferManager_extend bm)) p = SlottedPage_new"
    "unat p = unat (num_pages (storage_manager bm)) \<Longrightarrow>
       current_page (BufferManager_extend bm) p = SlottedPage_new"
proof -
  note parts = bm_ok_parts [OF ok]
  note ek = extend_keeps [OF parts(1) n]
  let ?bm = "BufferManager_extend bm"
  have sm: "storage_manager ?bm = StorageManager_extend (storage_manager bm)"
    unfolding BufferManager_extend_def by simp
  have same: "frame_of_page ?bm = frame_of_page bm" "buffer_pool ?bm = buffer_pool bm"
    "policy ?bm = policy bm" "empty_slots ?bm = empty_slots bm" "page_state ?bm = page_state bm"
    unfolding BufferManager_extend_def by simp_all
  show np: "unat (num_pages (storage_manager ?bm)) = unat (num_pages (storage_manager bm)) + 1"
    unfolding sm by (rule ek(2))
  show "bm_ok {} ?bm"
  proof (rule bm_okI)
    show "whole_pages (storage_manager ?bm)" unfolding sm by (rule ek(1))
    show "unat (num_pages (storage_manager ?bm)) \<le> 65536" using n np by simp
    show "dom (page_state ?bm) = tracked (policy ?bm)" using parts(3) by (simp add: same)
    show "dom (frame_of_page ?bm) = tracked (policy ?bm)" using parts(4) by (simp add: same)
    show "distinct (fifo_queue (policy ?bm) @ lru_queue (policy ?bm))"
      using parts(5) by (simp add: same)
    show "{} \<subseteq> tracked (policy ?bm)" by simp
    show "distinct (empty_slots ?bm)" using parts(7) by (simp add: same)
    show "f < length (buffer_pool ?bm)" if "f \<in> set (empty_slots ?bm)" for f
      using that parts(8) by (simp add: same)
    show "tracked (policy ?bm) \<noteq> {}" if "empty_slots ?bm = []"
      using that parts(9) by (simp add: same)
    fix q f assume "frame_of_page ?bm q = Some f"
    then have r: "frame_of_page bm q = Some f" by (simp add: same)
    note rs = bm_ok_resident [OF ok r]
    from rs(3) np have "unat q < unat (num_pages (storage_manager ?bm))" by simp
    with rs(1,2,4,5)
    show "f < length (buffer_pool ?bm) \<and> f \<notin> set (empty_slots ?bm) \<and>
        unat q < unat (num_pages (storage_manager ?bm)) \<and>
        page_state ?bm q = Some (if q \<in> {} then PAGE_EXCLUSIVE else PAGE_UNFIXED) \<and>
        (\<exists>fr. buffer_pool ?bm ! f = Some fr \<and> frame_page_id fr = q \<and>
           length (page fr) = PAGE_SIZE \<and>
           mutex fr = (if q \<in> {} then LockedExclusive else Unlocked))"
      by (simp add: same)
  qed
  have fa: "frame_at ?bm f = frame_at bm f" for f by (simp add: frame_at_def same)
  have cur: "current_page ?bm q =
      (case frame_of_page bm q of None \<Rightarrow> file_page (storage_manager ?bm) q
       | Some f \<Rightarrow> (case frame_at bm f of None \<Rightarrow> [] | Some fr \<Rightarrow> page fr))" for q
    by (simp add: current_page_def same fa split: option.splits)
  {
    assume p: "unat p < unat (num_pages (storage_manager bm))"
    show fp: "file_page (storage_manager ?bm) p = file_page (storage_manager bm) p"
      unfolding sm by (rule ek(3) [OF p])
    show "current_page ?bm p = current_page bm p"
      unfolding cur fp by (simp add: current_page_def)
  next
    assume p: "unat p = unat (num_pages (storage_manager bm))"
    show fp: "file_page (storage_manager ?bm) p = SlottedPage_new"
      unfolding sm by (rule ek(4) [OF p])
    have "frame_of_page bm p = None"
    proof (cases "frame_of_page bm p")
      case (Some f)
      from bm_ok_resident(3) [OF ok Some] p show ?thesis by simp
    qed simp
    then show "current_page ?bm p = SlottedPage_new"
      unfolding cur fp by simp
  }
qed

subsection \<open>The scan\<close>

lemma pages_accept_after:
  assumes pa: "pages_accept ser idx bm"
    and np: "num_pages (storage_manager bm') = num_pages (storage_manager bm)"
    and pid: "unat pid = idx"
    and oth: "\<forall>p. p \<noteq> pid \<and> unat p < unat (num_pages (storage_manager bm)) \<longrightarrow>
        (file_page (storage_manager bm') p = file_page (storage_manager bm) p \<or>
         file_page (storage_manager bm') p = current_page bm p) \<and>
        (current_page bm' p = current_page bm p \<or>
         current_page bm' p = file_page (storage_manager bm) p)"
  shows "pages_accept ser (Suc idx) bm'"
  unfolding pages_accept_def
proof (intro allI impI)
  fix p :: PageID
  assume a: "Suc idx \<le> unat p \<and> unat p < unat (num_pages (storage_manager bm'))"
  then have r: "unat p < unat (num_pages (storage_manager bm))" and ge: "idx \<le> unat p"
    by (simp_all add: np)
  from a pid have ne: "p \<noteq> pid" by auto
  from pa r ge have acc: "accepts (file_page (storage_manager bm) p) ser"
    "accepts (current_page bm p) ser"
    unfolding pages_accept_def by blast+
  from oth ne r have
    f: "file_page (storage_manager bm') p = file_page (storage_manager bm) p \<or>
         file_page (storage_manager bm') p = current_page bm p"
    and c: "current_page bm' p = current_page bm p \<or>
         current_page bm' p = file_page (storage_manager bm) p"
    by blast+
  from f acc have "accepts (file_page (storage_manager bm') p) ser" by auto
  moreover from c acc have "accepts (current_page bm' p) ser" by auto
  ultimately show "accepts (file_page (storage_manager bm') p) ser \<and>
      accepts (current_page bm' p) ser" ..
qed

lemma unat_of_nat_PageID: "i < 65536 \<Longrightarrow> unat (of_nat i :: PageID) = i"
  by (simp add: unat_of_nat)

lemma failed_attempts_Cons:
  "failed_attempts (i # ps) =
     [Fix (of_nat i) True, AddTuple (of_nat i) False, Unfix (of_nat i) False] @ failed_attempts ps"
  by (simp add: failed_attempts_def)

lemma failed_attempts_Nil: "failed_attempts [] = []"
  by (simp add: failed_attempts_def)

lemma no_index_between: "\<forall>j :: nat. a \<le> j \<and> j < a \<longrightarrow> P j"
  by auto

lemma scan_pages_ok:
  assumes ser: "Tuple_serialize fshow t = Inr s"
  shows "bm_ok {} bm \<Longrightarrow> unat (num_pages (storage_manager bm)) = n \<Longrightarrow> idx \<le> n \<Longrightarrow>
     pages_accept (bytes_of s) idx bm \<Longrightarrow>
     \<exists>found bm' k. scan_pages fshow t bm idx n =
         Some (Inr (found, bm', failed_attempts [idx..<k] @
            (if found then [Fix (of_nat k) True, AddTuple (of_nat k) True, Unfix (of_nat k) True]
             else []))) \<and>
       idx \<le> k \<and> k \<le> n \<and> (found \<longleftrightarrow> k < n) \<and> bm_ok {} bm' \<and>
       num_pages (storage_manager bm') = num_pages (storage_manager bm) \<and>
       (\<forall>j. idx \<le> j \<and> j < k \<longrightarrow>
          (\<exists>pg pd'. (pg = current_page bm (of_nat j) \<or>
                     pg = file_page (storage_manager bm) (of_nat j)) \<and>
             addTuple pg (bytes_of s) = Inr (False, pd'))) \<and>
       (found \<longrightarrow>
          (\<exists>pg pg'. (pg = current_page bm (of_nat k) \<or>
                     pg = file_page (storage_manager bm) (of_nat k)) \<and>
             addTuple pg (bytes_of s) = Inr (True, pg') \<and>
             current_page bm' (of_nat k) = pg') \<and>
          (\<exists>f fr. frame_of_page bm' (of_nat k) = Some f \<and> frame_at bm' f = Some fr \<and>
             frame_is_dirty fr))"
proof (induction "n - idx" arbitrary: idx bm)
  case 0
  then have e: "idx = n" by simp
  have res: "scan_pages fshow t bm idx n =
      Some (Inr (False, bm, failed_attempts [idx..<n] @
        (if False then [Fix (of_nat n) True, AddTuple (of_nat n) True, Unfix (of_nat n) True]
         else [])))"
    by (subst scan_pages.simps) (simp add: e failed_attempts_Nil)
  have le: "idx \<le> n" by (simp add: e)
  have iff: "False \<longleftrightarrow> n < n" by simp
  have none: "\<forall>j. idx \<le> j \<and> j < n \<longrightarrow>
          (\<exists>pg pd'. (pg = current_page bm (of_nat j) \<or>
                     pg = file_page (storage_manager bm) (of_nat j)) \<and>
             addTuple pg (bytes_of s) = Inr (False, pd'))"
    unfolding e by (rule no_index_between)
  have fin: "False \<longrightarrow> P" for P by simp
  show ?case
    by (rule exI [of _ False], rule exI [of _ bm], rule exI [of _ n], intro conjI res le le_refl iff \<open>bm_ok {} bm\<close> refl none fin)
next
  case (Suc m)
  note ok = \<open>bm_ok {} bm\<close> and np = \<open>unat (num_pages (storage_manager bm)) = n\<close>
    and pa = \<open>pages_accept (bytes_of s) idx bm\<close>
  from Suc.hyps(2) have lt: "idx < n" by simp
  from bm_ok_parts(2) [OF ok] np have n: "n \<le> 65536" by simp
  define pid :: PageID where "pid = of_nat idx"
  have upid: "unat pid = idx"
    unfolding pid_def using lt n by (intro unat_of_nat_PageID) simp
  have r: "unat pid < unat (num_pages (storage_manager bm))"
    using lt by (simp add: upid np)
  from pa r upid have acc: "accepts (current_page bm pid) (bytes_of s)"
    unfolding pages_accept_def by simp
  from try_page_ok [OF ok r ser acc] obtain added bm1 pg' where
    tp: "try_page fshow t bm pid =
       Some (Inr (added, bm1, [Fix pid True, AddTuple pid added, Unfix pid added]))"
    and ad: "addTuple (current_page bm pid) (bytes_of s) = Inr (added, pg')"
    and cp: "current_page bm1 pid = pg'" and ok1: "bm_ok {} bm1"
    and np1: "num_pages (storage_manager bm1) = num_pages (storage_manager bm)"
    and oth: "\<forall>p. p \<noteq> pid \<and> unat p < unat (num_pages (storage_manager bm)) \<longrightarrow>
        (file_page (storage_manager bm1) p = file_page (storage_manager bm) p \<or>
         file_page (storage_manager bm1) p = current_page bm p) \<and>
        (current_page bm1 p = current_page bm p \<or>
         current_page bm1 p = file_page (storage_manager bm) p)"
    and dirty: "\<exists>f fr. frame_of_page bm1 pid = Some f \<and> frame_at bm1 f = Some fr \<and>
        (added \<longrightarrow> frame_is_dirty fr)"
    by blast
  show ?case
  proof (cases added)
    case True
    have res: "scan_pages fshow t bm idx n =
        Some (Inr (True, bm1, [Fix pid True, AddTuple pid True, Unfix pid True]))"
      using lt True tp by (subst scan_pages.simps) (simp add: pid_def)
    have res': "scan_pages fshow t bm idx n =
        Some (Inr (True, bm1, failed_attempts [idx..<idx] @
          (if True then [Fix (of_nat idx) True, AddTuple (of_nat idx) True, Unfix (of_nat idx) True]
           else [])))"
      using res by (simp add: failed_attempts_Nil pid_def)
    from ad True have ad': "addTuple (current_page bm pid) (bytes_of s) = Inr (True, pg')"
      by simp
    have page: "\<exists>pg pg'. (pg = current_page bm pid \<or> pg = file_page (storage_manager bm) pid) \<and>
             addTuple pg (bytes_of s) = Inr (True, pg') \<and> current_page bm1 pid = pg'"
      by (rule exI [of _ "current_page bm pid"], rule exI [of _ pg']) (simp add: ad' cp)
    have dirty': "\<exists>f fr. frame_of_page bm1 pid = Some f \<and> frame_at bm1 f = Some fr \<and>
        frame_is_dirty fr"
      using dirty True by simp
    from page dirty' have both:
      "(\<exists>pg pg'. (pg = current_page bm pid \<or> pg = file_page (storage_manager bm) pid) \<and>
             addTuple pg (bytes_of s) = Inr (True, pg') \<and> current_page bm1 pid = pg') \<and>
       (\<exists>f fr. frame_of_page bm1 pid = Some f \<and> frame_at bm1 f = Some fr \<and>
        frame_is_dirty fr)"
      by (rule conjI)
    have fin: "True \<longrightarrow>
       (\<exists>pg pg'. (pg = current_page bm (of_nat idx) \<or>
               pg = file_page (storage_manager bm) (of_nat idx)) \<and>
             addTuple pg (bytes_of s) = Inr (True, pg') \<and> current_page bm1 (of_nat idx) = pg') \<and>
       (\<exists>f fr. frame_of_page bm1 (of_nat idx) = Some f \<and> frame_at bm1 f = Some fr \<and>
        frame_is_dirty fr)"
      using both unfolding pid_def by (intro impI)
    have len: "idx \<le> n" using lt by simp
    have none: "(\<forall>j. idx \<le> j \<and> j < idx \<longrightarrow>
          (\<exists>pg pd'. (pg = current_page bm (of_nat j) \<or>
                     pg = file_page (storage_manager bm) (of_nat j)) \<and>
             addTuple pg (bytes_of s) = Inr (False, pd')))"
      by (rule no_index_between)
    have iff: "True \<longleftrightarrow> idx < n" using lt by simp
    show ?thesis
      by (rule exI [of _ True], rule exI [of _ bm1], rule exI [of _ idx], intro conjI res' le_refl len iff ok1 np1 none fin)
  next
    case False
    have pa1: "pages_accept (bytes_of s) (Suc idx) bm1"
      by (rule pages_accept_after [OF pa np1 upid oth])
    have m: "m = n - Suc idx" using Suc.hyps(2) by simp
    have np1': "unat (num_pages (storage_manager bm1)) = n" by (simp add: np1 np)
    from lt have le: "Suc idx \<le> n" by simp
    from Suc.hyps(1) [OF m ok1 np1' le pa1] obtain found bm2 k where
      sc: "scan_pages fshow t bm1 (Suc idx) n =
         Some (Inr (found, bm2, failed_attempts [Suc idx..<k] @
            (if found then [Fix (of_nat k) True, AddTuple (of_nat k) True, Unfix (of_nat k) True]
             else [])))"
      and k: "Suc idx \<le> k" "k \<le> n" "found \<longleftrightarrow> k < n" and ok2: "bm_ok {} bm2"
      and np2: "num_pages (storage_manager bm2) = num_pages (storage_manager bm1)"
      and fl: "(\<forall>j. Suc idx \<le> j \<and> j < k \<longrightarrow>
          (\<exists>pg pd'. (pg = current_page bm1 (of_nat j) \<or>
                     pg = file_page (storage_manager bm1) (of_nat j)) \<and>
             addTuple pg (bytes_of s) = Inr (False, pd')))"
      and fnd: "found \<longrightarrow>
          (\<exists>pg pg'. (pg = current_page bm1 (of_nat k) \<or>
                     pg = file_page (storage_manager bm1) (of_nat k)) \<and>
             addTuple pg (bytes_of s) = Inr (True, pg') \<and>
             current_page bm2 (of_nat k) = pg') \<and>
          (\<exists>f fr. frame_of_page bm2 (of_nat k) = Some f \<and> frame_at bm2 f = Some fr \<and>
             frame_is_dirty fr)"
      by blast
    from k(1) have up: "[idx..<k] = idx # [Suc idx..<k]" by (simp add: upt_conv_Cons)
    have calls: "[Fix pid True, AddTuple pid False, Unfix pid False] @
        failed_attempts [Suc idx..<k] = failed_attempts [idx..<k]"
      unfolding up failed_attempts_Cons pid_def by (rule refl)
    have res: "scan_pages fshow t bm idx n =
         Some (Inr (found, bm2, failed_attempts [idx..<k] @
            (if found then [Fix (of_nat k) True, AddTuple (of_nat k) True, Unfix (of_nat k) True]
             else [])))"
      unfolding calls [symmetric]
      using lt False tp sc by (subst scan_pages.simps) (simp add: pid_def)
    have transfer: "pg = current_page bm (of_nat j) \<or>
        pg = file_page (storage_manager bm) (of_nat j)"
      if j: "Suc idx \<le> j" "j < n"
        and pg: "pg = current_page bm1 (of_nat j) \<or>
          pg = file_page (storage_manager bm1) (of_nat j)" for j pg
    proof -
      define q :: PageID where "q = of_nat j"
      have uq: "unat q = j" unfolding q_def using j(2) n by (intro unat_of_nat_PageID) simp
      from j(1) upid uq have ne: "q \<noteq> pid" by auto
      have rq: "unat q < unat (num_pages (storage_manager bm))" using j(2) by (simp add: uq np)
      from oth ne rq have
        f: "file_page (storage_manager bm1) q = file_page (storage_manager bm) q \<or>
           file_page (storage_manager bm1) q = current_page bm q"
        and c: "current_page bm1 q = current_page bm q \<or>
           current_page bm1 q = file_page (storage_manager bm) q"
        by blast+
      from pg have "pg = current_page bm1 q \<or> pg = file_page (storage_manager bm1) q"
        unfolding q_def .
      with f c have "pg = current_page bm q \<or> pg = file_page (storage_manager bm) q"
        by auto
      then show ?thesis unfolding q_def .
    qed
    have fl': "(\<forall>j. idx \<le> j \<and> j < k \<longrightarrow>
          (\<exists>pg pd'. (pg = current_page bm (of_nat j) \<or>
                     pg = file_page (storage_manager bm) (of_nat j)) \<and>
             addTuple pg (bytes_of s) = Inr (False, pd')))"
    proof (intro allI impI)
      fix j assume a: "idx \<le> j \<and> j < k"
      show "\<exists>pg pd'. (pg = current_page bm (of_nat j) \<or>
                     pg = file_page (storage_manager bm) (of_nat j)) \<and>
             addTuple pg (bytes_of s) = Inr (False, pd')"
      proof (cases "j = idx")
        case True
        from ad False have "addTuple (current_page bm (of_nat j)) (bytes_of s) = Inr (False, pg')"
          by (simp add: True pid_def)
        then show ?thesis by blast
      next
        case ne: False
        with a have j: "Suc idx \<le> j" "j < k" by simp_all
        with k(2) have jn: "j < n" by simp
        from fl j obtain pg pd' where
          pg: "pg = current_page bm1 (of_nat j) \<or> pg = file_page (storage_manager bm1) (of_nat j)"
          and a2: "addTuple pg (bytes_of s) = Inr (False, pd')"
          by blast
        from transfer [OF j(1) jn pg] a2 show ?thesis by blast
      qed
    qed
    have fnd': "found \<longrightarrow>
          (\<exists>pg pg'. (pg = current_page bm (of_nat k) \<or>
                     pg = file_page (storage_manager bm) (of_nat k)) \<and>
             addTuple pg (bytes_of s) = Inr (True, pg') \<and>
             current_page bm2 (of_nat k) = pg') \<and>
          (\<exists>f fr. frame_of_page bm2 (of_nat k) = Some f \<and> frame_at bm2 f = Some fr \<and>
             frame_is_dirty fr)"
    proof
      assume found
      with k have kn: "k < n" by simp
      define q :: PageID where "q = of_nat k"
      have uq: "unat q = k" unfolding q_def using kn n by (intro unat_of_nat_PageID) simp
      from k(1) upid uq have ne: "q \<noteq> pid" by auto
      have rq: "unat q < unat (num_pages (storage_manager bm))" using kn by (simp add: uq np)
      from oth ne rq have
        f: "file_page (storage_manager bm1) q = file_page (storage_manager bm) q \<or>
           file_page (storage_manager bm1) q = current_page bm q"
        and c: "current_page bm1 q = current_page bm q \<or>
           current_page bm1 q = file_page (storage_manager bm) q"
        by blast+
      from fnd \<open>found\<close> obtain pg pg2 where
        pg: "pg = current_page bm1 q \<or> pg = file_page (storage_manager bm1) q"
        and a2: "addTuple pg (bytes_of s) = Inr (True, pg2)"
        and c2: "current_page bm2 q = pg2"
        and d2: "\<exists>f fr. frame_of_page bm2 q = Some f \<and> frame_at bm2 f = Some fr \<and>
             frame_is_dirty fr"
        unfolding q_def by blast
      from pg f c have "pg = current_page bm q \<or> pg = file_page (storage_manager bm) q"
        by auto
      with a2 c2 have "\<exists>pg pg'. (pg = current_page bm q \<or>
                     pg = file_page (storage_manager bm) q) \<and>
             addTuple pg (bytes_of s) = Inr (True, pg') \<and> current_page bm2 q = pg'"
        by blast
      then show "(\<exists>pg pg'. (pg = current_page bm (of_nat k) \<or>
                     pg = file_page (storage_manager bm) (of_nat k)) \<and>
             addTuple pg (bytes_of s) = Inr (True, pg') \<and>
             current_page bm2 (of_nat k) = pg') \<and>
          (\<exists>f fr. frame_of_page bm2 (of_nat k) = Some f \<and> frame_at bm2 f = Some fr \<and>
             frame_is_dirty fr)"
        using d2 unfolding q_def by (rule conjI)
    qed
    have le': "idx \<le> k" using k(1) by simp
    have np2': "num_pages (storage_manager bm2) = num_pages (storage_manager bm)"
      by (simp add: np2 np1)
    show ?thesis
      by (rule exI [of _ found], rule exI [of _ bm2], rule exI [of _ k], intro conjI res le' k(2) k(3) ok2 np2' fl' fnd')
  qed
qed

subsection \<open>\<^verbatim>\<open>InsertOperator::next\<close>\<close>

lemma new_page_id:
  assumes "unat (num_pages (storage_manager bm)) = n" "n \<le> 65535"
  shows "(ucast (BufferManager_getNumPages (BufferManager_extend bm) - 1) :: PageID) = of_nat n"
proof -
  have "BufferManager_getNumPages (BufferManager_extend bm) - 1 = num_pages (storage_manager bm)"
    by (simp add: BufferManager_getNumPages_def getNumPages_def BufferManager_extend_def
        StorageManager_extend_def)
  moreover have "num_pages (storage_manager bm) = of_nat n"
    unfolding assms(1) [symmetric] by simp
  moreover have "(ucast (of_nat n :: 64 word) :: PageID) = of_nat n"
    using assms(2) by (simp add: unsigned_of_nat take_bit_eq_mod)
  ultimately show ?thesis by simp
qed




end
